theory Spec2Isabelle
  imports Complex_Main
begin

section \<open>The progress ledger (src/src/workflow.py, class ProgressTracker)\<close>

text \<open>
  The ledger is an SQLite database with two tables. The model keeps the rows of each
  table in insertion order. A row of \<open>documents\<close> has the columns
  \<open>id INTEGER PRIMARY KEY\<close>, \<open>path TEXT UNIQUE\<close>, \<open>status\<close>, \<open>stage\<close> and
  \<open>result\<close>; the column \<open>created_at\<close> (a time stamp filled in by the database) is
  never read by the program and is left out. SQL \<open>NULL\<close> is \<open>None\<close>.

  Python strings are modelled as HOL strings (lists of 8-bit characters, read as the
  code points 0 to 255).
\<close>

record doc_row =
  row_id :: int
  row_path :: string
  row_status :: string
  row_stage :: "string option"
  row_result :: "string option"

text \<open>
  A cell of the table \<open>knowledge_points\<close> holds the value Python bound to the
  statement parameter: a text, a number, or \<open>NULL\<close>. The column \<open>video_markers\<close> holds
  the JSON text of the marker list; the model keeps the list itself.
\<close>

datatype sql_value = SqlNull | SqlInt int | SqlReal real | SqlText string

record kp_row =
  kp_doc_id :: int
  kp_title :: sql_value
  kp_content :: sql_value
  kp_video_markers :: "(string \<times> string) list"
  kp_source_file :: string

record ledger =
  documents :: "doc_row list"
  knowledge_points :: "kp_row list"

definition empty_ledger :: ledger where
  "empty_ledger = \<lparr>documents = [], knowledge_points = []\<rparr>"

text \<open>
  The row id SQLite gives a new row of a table with an \<open>INTEGER PRIMARY KEY\<close>: one
  more than the largest id in the table, and 1 in an empty table.
\<close>

fun max_rowid :: "doc_row list \<Rightarrow> int" where
  "max_rowid [] = 0"
| "max_rowid [r] = row_id r"
| "max_rowid (r # rs) = max (row_id r) (max_rowid rs)"

definition next_rowid :: "doc_row list \<Rightarrow> int" where
  "next_rowid rows = (if rows = [] then 1 else max_rowid rows + 1)"

text \<open>
  \<open>INSERT OR IGNORE INTO documents (path, status) VALUES (?, 'pending')\<close> on a
  fresh connection. When a row with the path exists the \<open>UNIQUE\<close> constraint makes the
  statement a no-op and the cursor's \<open>lastrowid\<close> is 0 (nothing was inserted on this
  connection); otherwise the row is appended and \<open>lastrowid\<close> is its id.
\<close>

definition insert_or_ignore :: "string \<Rightarrow> doc_row list \<Rightarrow> doc_row list \<times> int" where
  "insert_or_ignore p rows =
     (if p \<in> set (map row_path rows) then (rows, 0)
      else (rows @ [\<lparr>row_id = next_rowid rows, row_path = p, row_status = ''pending'',
                      row_stage = None, row_result = None\<rparr>],
            next_rowid rows))"

text \<open>\<open>_get_doc_id\<close>: \<open>SELECT id FROM documents WHERE path = ?\<close>, first row, 0 when none.\<close>

definition get_doc_id :: "string \<Rightarrow> ledger \<Rightarrow> int" where
  "get_doc_id p L =
     (case find (\<lambda>r. row_path r = p) (documents L) of
        Some r \<Rightarrow> row_id r
      | None \<Rightarrow> 0)"

text \<open>
  \<open>add_document\<close>: \<open>doc_id = cursor.lastrowid or self._get_doc_id(path)\<close>; the
  Python \<open>or\<close> takes the right operand when \<open>lastrowid\<close> is 0.
\<close>

definition add_document :: "string \<Rightarrow> ledger \<Rightarrow> int \<times> ledger" where
  "add_document p L =
     (let (rows', lastrowid) = insert_or_ignore p (documents L);
          L' = L\<lparr>documents := rows'\<rparr>
      in (if lastrowid \<noteq> 0 then lastrowid else get_doc_id p L', L'))"

text \<open>\<open>update_status\<close>: \<open>UPDATE documents SET status = ?, stage = ?, result = ? WHERE id = ?\<close>.\<close>

definition update_status ::
  "int \<Rightarrow> string \<Rightarrow> string option \<Rightarrow> string option \<Rightarrow> ledger \<Rightarrow> ledger" where
  "update_status doc_id status stage result L =
     L\<lparr>documents :=
         map (\<lambda>r. if row_id r = doc_id
                  then r\<lparr>row_status := status, row_stage := stage, row_result := result\<rparr>
                  else r)
             (documents L)\<rparr>"

text \<open>The number of rows of \<open>documents\<close> that hold a path.\<close>

definition rows_for :: "string \<Rightarrow> ledger \<Rightarrow> nat" where
  "rows_for p L = length (filter (\<lambda>r. row_path r = p) (documents L))"

text \<open>The \<open>UNIQUE\<close> constraint on \<open>path\<close>, which every reachable table satisfies.\<close>

definition unique_paths :: "ledger \<Rightarrow> bool" where
  "unique_paths L = distinct (map row_path (documents L))"

subsection \<open>Facts about the ledger operations\<close>

lemma find_path_append_new:
  "p \<notin> set (map row_path rows) \<Longrightarrow>
     find (\<lambda>r. row_path r = p) (rows @ [r']) = (if row_path r' = p then Some r' else None)"
  by (induction rows) auto

lemma find_path_present:
  "p \<in> set (map row_path rows) \<Longrightarrow> \<exists>r. find (\<lambda>r. row_path r = p) rows = Some r \<and> row_path r = p"
  by (induction rows) auto

lemma add_document_present:
  "p \<in> set (map row_path (documents L)) \<Longrightarrow> add_document p L = (get_doc_id p L, L)"
  by (simp add: add_document_def insert_or_ignore_def Let_def)

lemma add_document_path_present:
  "p \<in> set (map row_path (documents (snd (add_document p L))))"
  by (simp add: add_document_def insert_or_ignore_def Let_def)

lemma add_document_returns_row:
  "\<exists>r \<in> set (documents (snd (add_document p L))).
      row_path r = p \<and> row_id r = fst (add_document p L)"
proof (cases "p \<in> set (map row_path (documents L))")
  case True
  then obtain r where r: "find (\<lambda>r. row_path r = p) (documents L) = Some r" "row_path r = p"
    using find_path_present by blast
  from r(1) have "r \<in> set (documents L)"
    by (auto simp: find_Some_iff)
  with True r show ?thesis
    by (auto simp: add_document_present get_doc_id_def)
next
  case False
  then show ?thesis
    by (auto simp: add_document_def insert_or_ignore_def get_doc_id_def find_path_append_new Let_def)
qed

lemma add_document_unique_paths:
  "unique_paths L \<Longrightarrow> unique_paths (snd (add_document p L))"
  by (auto simp: unique_paths_def add_document_def insert_or_ignore_def Let_def)

lemma distinct_paths_count:
  "distinct (map row_path rows) \<Longrightarrow> p \<in> set (map row_path rows) \<Longrightarrow>
     length (filter (\<lambda>r. row_path r = p) rows) = 1"
proof (induction rows)
  case Nil
  then show ?case by simp
next
  case (Cons r rows)
  show ?case
  proof (cases "row_path r = p")
    case True
    with Cons.prems have "p \<notin> row_path ` set rows" by auto
    then have "filter (\<lambda>r. row_path r = p) rows = []"
      by (auto simp: filter_empty_conv)
    with True show ?thesis by simp
  next
    case False
    with Cons show ?thesis by auto
  qed
qed

text \<open>
  Claim C9. Calling \<open>add_document\<close> twice with the same path is idempotent: the second
  call leaves the ledger as the first call left it (it performs no insert), it returns
  the id the first call returned, and the table \<open>documents\<close> then holds exactly one row
  for the path. The table the first call starts from satisfies the \<open>UNIQUE\<close> constraint
  of the column \<open>path\<close>.
\<close>

theorem add_document_idempotent:
  assumes "unique_paths L"
  shows "add_document p (snd (add_document p L)) = (fst (add_document p L), snd (add_document p L))
         \<and> rows_for p (snd (add_document p (snd (add_document p L)))) = 1"
proof -
  let ?L1 = "snd (add_document p L)"
  have present: "p \<in> set (map row_path (documents ?L1))"
    by (rule add_document_path_present)
  obtain r where r: "r \<in> set (documents ?L1)" "row_path r = p" "row_id r = fst (add_document p L)"
    using add_document_returns_row by blast
  have u1: "distinct (map row_path (documents ?L1))"
    using add_document_unique_paths [OF assms] by (simp add: unique_paths_def)
  obtain r' where r': "find (\<lambda>r. row_path r = p) (documents ?L1) = Some r'" "row_path r' = p"
    using find_path_present [OF present] by blast
  from r'(1) have "r' \<in> set (documents ?L1)"
    by (auto simp: find_Some_iff)
  with r r' u1 have "r' = r"
    by (meson distinct_map inj_onD)
  with r r' have id2: "get_doc_id p ?L1 = fst (add_document p L)"
    by (simp add: get_doc_id_def)
  have second: "add_document p ?L1 = (fst (add_document p L), ?L1)"
    using add_document_present [OF present] id2 by simp
  have "rows_for p ?L1 = 1"
    unfolding rows_for_def using distinct_paths_count [OF u1 present] .
  with second show ?thesis by simp
qed

theorem add_document_idempotent_witness:
  "unique_paths empty_ledger
   \<and> add_document ''a.srt'' (snd (add_document ''a.srt'' empty_ledger))
       = (1, snd (add_document ''a.srt'' empty_ledger))
   \<and> rows_for ''a.srt'' (snd (add_document ''a.srt'' (snd (add_document ''a.srt'' empty_ledger)))) = 1"
proof -
  have u: "unique_paths empty_ledger"
    by (simp add: unique_paths_def empty_ledger_def)
  have f: "fst (add_document ''a.srt'' empty_ledger) = 1"
    by (simp add: add_document_def insert_or_ignore_def empty_ledger_def next_rowid_def Let_def)
  have t: "add_document ''a.srt'' (snd (add_document ''a.srt'' empty_ledger))
             = (fst (add_document ''a.srt'' empty_ledger), snd (add_document ''a.srt'' empty_ledger))
           \<and> rows_for ''a.srt''
               (snd (add_document ''a.srt'' (snd (add_document ''a.srt'' empty_ledger)))) = 1"
    by (rule add_document_idempotent [OF u])
  from t u show ?thesis
    unfolding f by blast
qed

section \<open>Texts, character classes and regular expressions\<close>

text \<open>
  A Python \<open>str\<close> is modelled as a HOL string whose characters are the code points 0 to
  255. The character classes below are those of Python 3 on that range: \<open>is_space\<close> is
  \<open>str.isspace\<close> and the class \<open>\s\<close>, \<open>is_word\<close> is the class \<open>\w\<close>, \<open>py_lower\<close> is
  \<open>str.lower\<close>. Characters beyond code point 255 (the CJK characters of some of the
  program's patterns among them) are outside the model: a class or a literal made of them
  matches no character of a modelled text.
\<close>

definition code_point :: "char \<Rightarrow> nat" where
  "code_point c = of_char c"

definition is_space :: "char \<Rightarrow> bool" where
  "is_space c = (code_point c \<in> {9, 10, 11, 12, 13, 28, 29, 30, 31, 32, 133, 160})"

definition is_alnum :: "char \<Rightarrow> bool" where
  "is_alnum c =
     (let n = code_point c
      in (48 \<le> n \<and> n \<le> 57) \<or> (65 \<le> n \<and> n \<le> 90) \<or> (97 \<le> n \<and> n \<le> 122)
         \<or> n \<in> {170, 178, 179, 181, 185, 186, 188, 189, 190}
         \<or> (192 \<le> n \<and> n \<le> 214) \<or> (216 \<le> n \<and> n \<le> 246) \<or> 248 \<le> n)"

definition is_word :: "char \<Rightarrow> bool" where
  "is_word c = (is_alnum c \<or> c = CHR ''_'')"

definition py_lower_char :: "char \<Rightarrow> char" where
  "py_lower_char c =
     (let n = code_point c
      in if (65 \<le> n \<and> n \<le> 90) \<or> (192 \<le> n \<and> n \<le> 222 \<and> n \<noteq> 215)
         then char_of (n + 32) else c)"

definition py_lower :: "string \<Rightarrow> string" where
  "py_lower s = map py_lower_char s"

text \<open>\<open>str.strip()\<close>: white space removed at both ends.\<close>

definition strip :: "string \<Rightarrow> string" where
  "strip s = rev (dropWhile is_space (rev (dropWhile is_space s)))"

definition newline :: char where
  "newline = CHR 0x0A"

definition tab :: char where
  "tab = CHR 0x09"

text \<open>
  The regular expressions of the program, as syntax trees. Repetition is applied to
  character classes only, which is all the program's patterns need. \<open>LitI\<close> is a literal
  under \<open>re.IGNORECASE\<close> (the pattern text is in lower case), \<open>WordB\<close> is \<open>\b\<close>,
  \<open>Grp\<close> is capturing group 1, \<open>LazyStar\<close> is \<open>*?\<close>; \<open>Opt\<close>, \<open>Star\<close> and \<open>Plus\<close> are
  greedy, \<open>Alt\<close> tries its left branch first.
\<close>

datatype rx =
    Lit string
  | LitI string
  | Cls "char \<Rightarrow> bool"
  | Seq rx rx
  | Alt rx rx
  | Opt rx
  | Star "char \<Rightarrow> bool"
  | Plus "char \<Rightarrow> bool"
  | LazyStar "char \<Rightarrow> bool"
  | WordB
  | Grp rx

text \<open>
  A backtracking matcher in continuation style, with the priorities of Python's engine.
  \<open>bef\<close> is the text before the current position, reversed (the word boundary looks at
  it), \<open>rest\<close> the text from the position on, \<open>cap\<close> the text of group 1 so far. The
  continuation \<open>k\<close> is the rest of the pattern; its answer \<open>None\<close> makes the matcher
  backtrack.
\<close>

fun star_greedy ::
  "(char \<Rightarrow> bool) \<Rightarrow> string \<Rightarrow> string \<Rightarrow> (string \<Rightarrow> string \<Rightarrow> 'a option) \<Rightarrow> 'a option" where
  "star_greedy c bef [] k = k bef []"
| "star_greedy c bef (x # xs) k =
     (if c x
      then (case star_greedy c (x # bef) xs k of
              Some r \<Rightarrow> Some r
            | None \<Rightarrow> k bef (x # xs))
      else k bef (x # xs))"

fun star_lazy ::
  "(char \<Rightarrow> bool) \<Rightarrow> string \<Rightarrow> string \<Rightarrow> (string \<Rightarrow> string \<Rightarrow> 'a option) \<Rightarrow> 'a option" where
  "star_lazy c bef [] k = k bef []"
| "star_lazy c bef (x # xs) k =
     (case k bef (x # xs) of
        Some r \<Rightarrow> Some r
      | None \<Rightarrow> if c x then star_lazy c (x # bef) xs k else None)"

fun word_at :: "string \<Rightarrow> bool" where
  "word_at [] = False"
| "word_at (x # xs) = is_word x"

fun rx_match ::
  "rx \<Rightarrow> string \<Rightarrow> string \<Rightarrow> string option
     \<Rightarrow> (string \<Rightarrow> string \<Rightarrow> string option \<Rightarrow> 'a option) \<Rightarrow> 'a option" where
  "rx_match (Lit s) bef rest cap k =
     (if take (length s) rest = s then k (rev s @ bef) (drop (length s) rest) cap else None)"
| "rx_match (LitI s) bef rest cap k =
     (if py_lower (take (length s) rest) = s
      then k (rev (take (length s) rest) @ bef) (drop (length s) rest) cap else None)"
| "rx_match (Cls c) bef rest cap k =
     (case rest of [] \<Rightarrow> None | x # xs \<Rightarrow> if c x then k (x # bef) xs cap else None)"
| "rx_match (Seq r1 r2) bef rest cap k =
     rx_match r1 bef rest cap (\<lambda>b r c. rx_match r2 b r c k)"
| "rx_match (Alt r1 r2) bef rest cap k =
     (case rx_match r1 bef rest cap k of Some a \<Rightarrow> Some a | None \<Rightarrow> rx_match r2 bef rest cap k)"
| "rx_match (Opt r) bef rest cap k =
     (case rx_match r bef rest cap k of Some a \<Rightarrow> Some a | None \<Rightarrow> k bef rest cap)"
| "rx_match (Star c) bef rest cap k = star_greedy c bef rest (\<lambda>b r. k b r cap)"
| "rx_match (Plus c) bef rest cap k =
     (case rest of
        [] \<Rightarrow> None
      | x # xs \<Rightarrow> if c x then star_greedy c (x # bef) xs (\<lambda>b r. k b r cap) else None)"
| "rx_match (LazyStar c) bef rest cap k = star_lazy c bef rest (\<lambda>b r. k b r cap)"
| "rx_match WordB bef rest cap k =
     (if word_at bef \<noteq> word_at rest then k bef rest cap else None)"
| "rx_match (Grp r) bef rest cap k =
     rx_match r bef rest cap (\<lambda>b r' c. k b r' (Some (rev (take (length b - length bef) b))))"

fun seqs :: "rx list \<Rightarrow> rx" where
  "seqs [] = Lit []"
| "seqs [r] = r"
| "seqs (r # rs) = Seq r (seqs rs)"

fun alts :: "rx list \<Rightarrow> rx" where
  "alts [] = Cls (\<lambda>c. False)"
| "alts [r] = r"
| "alts (r # rs) = Alt r (alts rs)"

text \<open>
  The match the engine finds at one position: its length and group 1. The second
  function is the engine's search right after an empty match, where an empty match at the
  same position is refused.
\<close>

definition rx_match_at :: "rx \<Rightarrow> string \<Rightarrow> string \<Rightarrow> (nat \<times> string option) option" where
  "rx_match_at r bef rest =
     rx_match r bef rest None (\<lambda>b r' c. Some (length rest - length r', c))"

definition rx_match_nonempty :: "rx \<Rightarrow> string \<Rightarrow> string \<Rightarrow> (nat \<times> string option) option" where
  "rx_match_nonempty r bef rest =
     rx_match r bef rest None
       (\<lambda>b r' c. if length r' < length rest then Some (length rest - length r', c) else None)"

text \<open>\<open>re.search\<close>: the match at the leftmost position that has one, as (group 0, group 1).\<close>

fun rx_search_from :: "rx \<Rightarrow> string \<Rightarrow> string \<Rightarrow> (string \<times> string option) option" where
  "rx_search_from r bef [] =
     (case rx_match_at r bef [] of Some (n, c) \<Rightarrow> Some ([], c) | None \<Rightarrow> None)"
| "rx_search_from r bef (x # xs) =
     (case rx_match_at r bef (x # xs) of
        Some (n, c) \<Rightarrow> Some (take n (x # xs), c)
      | None \<Rightarrow> rx_search_from r (x # bef) xs)"

definition re_search :: "rx \<Rightarrow> string \<Rightarrow> (string \<times> string option) option" where
  "re_search r text = rx_search_from r [] text"

text \<open>
  \<open>re.sub\<close> with a constant replacement: the non-overlapping matches from left to right
  are replaced, the text between them is copied. The third argument counts the characters
  of the current match still to be skipped.
\<close>

fun rx_sub_from :: "rx \<Rightarrow> string \<Rightarrow> nat \<Rightarrow> string \<Rightarrow> string \<Rightarrow> string" where
  "rx_sub_from r repl (Suc n) bef (x # xs) = rx_sub_from r repl n (x # bef) xs"
| "rx_sub_from r repl (Suc n) bef [] = []"
| "rx_sub_from r repl 0 bef [] =
     (case rx_match_at r bef [] of Some m \<Rightarrow> repl | None \<Rightarrow> [])"
| "rx_sub_from r repl 0 bef (x # xs) =
     (case rx_match_at r bef (x # xs) of
        None \<Rightarrow> x # rx_sub_from r repl 0 (x # bef) xs
      | Some (Suc n, c) \<Rightarrow> repl @ rx_sub_from r repl n (x # bef) xs
      | Some (0, c) \<Rightarrow>
          repl @ (case rx_match_nonempty r bef (x # xs) of
                    Some (Suc n, c') \<Rightarrow> repl @ rx_sub_from r repl n (x # bef) xs
                  | _ \<Rightarrow> x # rx_sub_from r repl 0 (x # bef) xs))"

definition re_sub :: "rx \<Rightarrow> string \<Rightarrow> string \<Rightarrow> string" where
  "re_sub r repl text = rx_sub_from r repl 0 [] text"

section \<open>Stage 1: the text cleaner (src/src/workflow.py, class TextCleaner)\<close>

text \<open>
  \<open>NOISE_PATTERNS\<close>, in the order of the source. Patterns 2 to 4 name CJK characters:
  the class of filler characters and the full-width comma of pattern 2 hold no modelled
  character, and the phrases of patterns 3 and 4 are literals that match nowhere.
  Pattern 2 has no mandatory part, so it also matches (and deletes) every run of white
  space and every comma.
\<close>

definition cjk_class :: "char \<Rightarrow> bool" where
  "cjk_class c = False"

definition cjk_literal :: rx where
  "cjk_literal = Cls (\<lambda>c. False)"

definition comma_class :: "char \<Rightarrow> bool" where
  "comma_class c = (c = CHR '','' \<or> cjk_class c)"

definition NOISE_PATTERNS :: "(rx \<times> string) list" where
  "NOISE_PATTERNS =
     [(seqs [WordB,
             Grp (alts (map LitI [''um'', ''uh'', ''uhh'', ''erm'', ''like'', ''you know'', ''right'',
                                  ''so'', ''well'', ''okay'', ''ok'', ''actually'', ''basically'',
                                  ''literally''])),
             WordB, Opt (Cls (\<lambda>c. c = CHR '','' \<or> c = CHR ''.'')), Star is_space], []),
      (seqs [Star is_space, Opt (Cls cjk_class), Opt (Cls comma_class), Star is_space], []),
      (seqs [Star is_space, Grp (alts [cjk_literal, cjk_literal, cjk_literal, cjk_literal, cjk_literal]),
             Opt (Cls comma_class), Star is_space], []),
      (seqs [Star is_space, Grp (alts [cjk_literal, cjk_literal, cjk_literal, cjk_literal]),
             Opt (Cls comma_class), Star is_space], []),
      (seqs [Lit [newline], Star is_space, Lit [newline], Star is_space, Plus (\<lambda>c. c = newline)],
       [newline, newline])]"

text \<open>
  \<open>TextCleaner.clean\<close>. The guard of the source is \<open>len(text) < original_length * 0.3\<close>
  in floating point; for lengths below \<open>2 ^ 49\<close> it is the integer comparison written
  here. Inside the guard the source rewrites \<open>text\<close>, the text the patterns have already
  been applied to; the original text is not kept, only its length.
\<close>

definition clean :: "string \<Rightarrow> string" where
  "clean text0 =
     (let original_length = length text0;
          text1 = fold (\<lambda>(pattern, replacement) t. re_sub pattern replacement t) NOISE_PATTERNS text0;
          text2 = re_sub (Plus (\<lambda>c. c = CHR '' '' \<or> c = tab)) '' '' text1;
          text3 = re_sub (seqs [Plus (\<lambda>c. c = CHR '' ''), Lit [newline]]) [newline] text2;
          text4 = re_sub (seqs [Lit [newline], Plus (\<lambda>c. c = CHR '' '')]) [newline] text3;
          text5 = (if 10 * length text4 < 3 * original_length
                   then re_sub (Plus is_space) '' '' text4 else text4)
      in strip text5)"

text \<open>
  What claim C3 expects of the fallback: the original text with runs of white space
  collapsed (the substitution of the guard, applied to the original) and stripped.
\<close>

definition collapse_whitespace :: "string \<Rightarrow> string" where
  "collapse_whitespace text0 = strip (re_sub (Plus is_space) '' '' text0)"

text \<open>
  Claim C3 (the code departs from it). On the text below the noise patterns remove 44 of
  47 characters, more than 70 percent, so the guard fires. The claim expects the
  original text back, white space collapsed; \<open>clean\<close> returns the three characters the
  patterns left.
\<close>

theorem clean_guard_keeps_normalized_text:
  "clean ''um, uh, like, you know, right, so, well, ok: 42'' = '':42''
   \<and> collapse_whitespace ''um, uh, like, you know, right, so, well, ok: 42''
       = ''um, uh, like, you know, right, so, well, ok: 42''
   \<and> 10 * length '':42'' < 3 * length ''um, uh, like, you know, right, so, well, ok: 42''"
  by code_simp

section \<open>Values, failures and the environment of the pipeline\<close>

text \<open>
  Values decoded from JSON, which the program stores and passes on without checking their
  type. A JSON object is the list of its key-value pairs (lookup takes the first pair of
  a key).
\<close>

datatype json =
    JNull
  | JBool bool
  | JInt int
  | JReal real
  | JStr string
  | JArr "json list"
  | JObj "(string \<times> json) list"

text \<open>The exceptions the modelled code can meet; each constructor is a Python exception.\<close>

datatype error =
    ServiceError string
  | ReadError string
  | JSONDecodeError
  | KeyError string
  | TypeError
  | AttributeError
  | BindError

text \<open>\<open>value[key]\<close>, \<open>value.get(key, default)\<close> and iteration \<open>for x in value\<close>.\<close>

fun py_getitem :: "json \<Rightarrow> string \<Rightarrow> error + json" where
  "py_getitem (JObj kvs) key =
     (case map_of kvs key of Some v \<Rightarrow> Inr v | None \<Rightarrow> Inl (KeyError key))"
| "py_getitem v key = Inl TypeError"

fun py_get :: "json \<Rightarrow> string \<Rightarrow> json \<Rightarrow> error + json" where
  "py_get (JObj kvs) key dflt = Inr (case map_of kvs key of Some v \<Rightarrow> v | None \<Rightarrow> dflt)"
| "py_get v key dflt = Inl AttributeError"

fun py_iter :: "json \<Rightarrow> error + json list" where
  "py_iter (JArr xs) = Inr xs"
| "py_iter (JStr s) = Inr (map (\<lambda>c. JStr [c]) s)"
| "py_iter (JObj kvs) = Inr (map (\<lambda>kv. JStr (fst kv)) kvs)"
| "py_iter v = Inl TypeError"

record VideoMarker =
  marker_time :: string
  marker_description :: string

text \<open>
  The dataclass \<open>KnowledgePoint\<close>. Its fields \<open>title\<close> and \<open>content\<close> are declared
  \<open>str\<close>, but stage 3 fills them with whatever JSON value the reply holds; the record is
  therefore polymorphic in their type: \<open>json KnowledgePoint\<close> inside the pipeline,
  \<open>string KnowledgePoint\<close> where the code relies on strings (fusion, clustering).
\<close>

record 'a KnowledgePoint =
  title :: 'a
  content :: 'a
  video_markers :: "VideoMarker list"
  source_file :: string
  importance :: int

record Document =
  path :: string
  doc_content :: string
  course_name :: "string option"
  doc_knowledge_points :: "json KnowledgePoint list"
  metadata :: "(string \<times> json) list"

text \<open>
  The prompts are f-strings around the data listed here; the fixed text of each template
  is not modelled. \<open>ConfirmPrompt\<close> holds, per group member, its index, title and the
  first 100 characters of its content; \<open>MergePrompt\<close> the number of members and, for the
  first five, title and first 1000 characters; \<open>TopicsPrompt\<close>, per point of a batch,
  title and first 150 characters.
\<close>

datatype prompt =
    NoiseReductionPrompt string
  | StructurePrompt string
  | VideoMarkPrompt json json
  | ConfirmPrompt "(nat \<times> string \<times> string) list"
  | MergePrompt nat "(string \<times> string) list"
  | TopicsPrompt "(string \<times> string) list"

text \<open>
  What the program takes from outside. \<open>llm\<close> is the generative service: the answer to
  the n-th call of a run, a text or a failure, may depend on n and on the prompt.
  \<open>read_text\<close> is \<open>Path.read_text\<close>. \<open>json_loads\<close> is \<open>json.loads\<close>, with \<open>None\<close> for
  \<open>JSONDecodeError\<close> (the decoder is taken to raise nothing else). \<open>find_markers\<close> is
  \<open>re.findall\<close> with the marker pattern of stage 4, whose literal part is CJK text; it
  yields the pairs (time range, description).
\<close>

record env =
  llm :: "nat \<Rightarrow> prompt \<Rightarrow> error + string"
  read_text :: "string \<Rightarrow> error + string"
  json_loads :: "string \<Rightarrow> json option"
  find_markers :: "string \<Rightarrow> (string \<times> string) list"

record world =
  tracker :: ledger
  llm_calls :: nat

definition generate :: "env \<Rightarrow> prompt \<Rightarrow> world \<Rightarrow> (error + string) \<times> world" where
  "generate E p w = (llm E (llm_calls w) p, w\<lparr>llm_calls := Suc (llm_calls w)\<rparr>)"

section \<open>The stage pipeline (src/src/workflow.py, class WorkflowEngine)\<close>

text \<open>\<open>save_knowledge_point\<close>: sqlite3 binds texts, numbers and \<open>None\<close>, and raises on a list or a dict.\<close>

fun to_sql :: "json \<Rightarrow> error + sql_value" where
  "to_sql JNull = Inr SqlNull"
| "to_sql (JBool b) = Inr (SqlInt (if b then 1 else 0))"
| "to_sql (JInt i) = Inr (SqlInt i)"
| "to_sql (JReal r) = Inr (SqlReal r)"
| "to_sql (JStr s) = Inr (SqlText s)"
| "to_sql (JArr xs) = Inl BindError"
| "to_sql (JObj kvs) = Inl BindError"

definition save_knowledge_point :: "int \<Rightarrow> json KnowledgePoint \<Rightarrow> ledger \<Rightarrow> error + ledger" where
  "save_knowledge_point doc_id point L =
     (case to_sql (title point) of
        Inl e \<Rightarrow> Inl e
      | Inr t \<Rightarrow>
          (case to_sql (content point) of
             Inl e \<Rightarrow> Inl e
           | Inr c \<Rightarrow>
               Inr (L\<lparr>knowledge_points := knowledge_points L @
                      [\<lparr>kp_doc_id = doc_id, kp_title = t, kp_content = c,
                        kp_video_markers =
                          map (\<lambda>m. (marker_time m, marker_description m)) (video_markers point),
                        kp_source_file = source_file point\<rparr>]\<rparr>)))"

text \<open>The loop over the points at the end of \<open>process_document\<close>; it stops at the first failure.\<close>

fun save_points :: "int \<Rightarrow> json KnowledgePoint list \<Rightarrow> ledger \<Rightarrow> error option \<times> ledger" where
  "save_points doc_id [] L = (None, L)"
| "save_points doc_id (p # ps) L =
     (case save_knowledge_point doc_id p L of
        Inl e \<Rightarrow> (Some e, L)
      | Inr L' \<Rightarrow> save_points doc_id ps L')"

definition set_status :: "int \<Rightarrow> string \<Rightarrow> string \<Rightarrow> world \<Rightarrow> world" where
  "set_status doc_id status stage w =
     w\<lparr>tracker := update_status doc_id status (Some stage) None (tracker w)\<rparr>"

text \<open>Stage 2, \<open>_stage_noise_reduction\<close>: one call, not guarded; the reply replaces the text.\<close>

definition stage_noise_reduction :: "env \<Rightarrow> Document \<Rightarrow> world \<Rightarrow> (error + Document) \<times> world" where
  "stage_noise_reduction E doc w =
     (case generate E (NoiseReductionPrompt (take 4000 (doc_content doc))) w of
        (Inl e, w') \<Rightarrow> (Inl e, w')
      | (Inr reply, w') \<Rightarrow> (Inr (doc\<lparr>doc_content := reply\<rparr>), w'))"

text \<open>
  Stage 3, \<open>_stage_structure\<close>. The list comprehension over \<open>data.get("points", [])\<close>
  reads \<open>p["title"]\<close> and \<open>p["content"]\<close> of every element.
\<close>

fun make_points :: "string \<Rightarrow> json list \<Rightarrow> error + json KnowledgePoint list" where
  "make_points src [] = Inr []"
| "make_points src (p # ps) =
     (case py_getitem p ''title'' of
        Inl e \<Rightarrow> Inl e
      | Inr t \<Rightarrow>
          (case py_getitem p ''content'' of
             Inl e \<Rightarrow> Inl e
           | Inr c \<Rightarrow>
               (case make_points src ps of
                  Inl e \<Rightarrow> Inl e
                | Inr rest \<Rightarrow>
                    Inr (\<lparr>title = t, content = c, video_markers = [], source_file = src,
                          importance = 3\<rparr> # rest))))"

definition extract_points :: "string \<Rightarrow> json \<Rightarrow> error + json KnowledgePoint list" where
  "extract_points src data =
     (case py_get data ''points'' (JArr []) of
        Inl e \<Rightarrow> Inl e
      | Inr v \<Rightarrow> (case py_iter v of Inl e \<Rightarrow> Inl e | Inr ps \<Rightarrow> make_points src ps))"

text \<open>The pattern \<open>\{.*\}\<close> with \<open>re.DOTALL\<close>.\<close>

definition brace_pattern :: rx where
  "brace_pattern = seqs [Lit ''{'', Star (\<lambda>c. True), Lit ''}'']"

text \<open>
  The title of the fallback point is a two-character CJK literal in the source (the word
  for "content"); the model writes it in English.
\<close>

definition fallback_title :: string where
  "fallback_title = ''content''"

text \<open>
  The body of the \<open>try\<close> block: \<open>Inl\<close> is an exception (caught by \<open>except Exception\<close>),
  \<open>Inr None\<close> is the path on which \<open>json_match\<close> is \<open>None\<close> and nothing is assigned,
  \<open>Inr (Some ps)\<close> the assignment of the new list.
\<close>

definition structure_attempt ::
  "env \<Rightarrow> string \<Rightarrow> error + string \<Rightarrow> error + json KnowledgePoint list option" where
  "structure_attempt E src r =
     (case r of
        Inl e \<Rightarrow> Inl e
      | Inr result \<Rightarrow>
          (case re_search brace_pattern result of
             None \<Rightarrow> Inr None
           | Some m \<Rightarrow>
               (case json_loads E (fst m) of
                  None \<Rightarrow> Inl JSONDecodeError
                | Some data \<Rightarrow>
                    (case extract_points src data of
                       Inl e \<Rightarrow> Inl e
                     | Inr ps \<Rightarrow> Inr (Some ps)))))"

definition stage_structure :: "env \<Rightarrow> Document \<Rightarrow> world \<Rightarrow> Document \<times> world" where
  "stage_structure E doc w =
     (let (r, w') = generate E (StructurePrompt (take 3000 (doc_content doc))) w
      in case structure_attempt E (path doc) r of
           Inr None \<Rightarrow> (doc, w')
         | Inr (Some ps) \<Rightarrow> (doc\<lparr>doc_knowledge_points := ps\<rparr>, w')
         | Inl e \<Rightarrow>
             (doc\<lparr>doc_knowledge_points :=
                    [\<lparr>title = JStr fallback_title, content = JStr (take 1000 (doc_content doc)),
                      video_markers = [], source_file = path doc, importance = 3\<rparr>]\<rparr>,
              w'))"

text \<open>Stage 4, \<open>_stage_video_mark\<close>: one guarded call per point.\<close>

fun video_mark_points ::
  "env \<Rightarrow> json KnowledgePoint list \<Rightarrow> world \<Rightarrow> json KnowledgePoint list \<times> world" where
  "video_mark_points E [] w = ([], w)"
| "video_mark_points E (p # ps) w =
     (case generate E (VideoMarkPrompt (title p) (content p)) w of
        (r, w') \<Rightarrow>
          (case video_mark_points E ps w' of
             (ps', w'') \<Rightarrow>
               ((case r of
                   Inl e \<Rightarrow> p
                 | Inr marked \<Rightarrow>
                     p\<lparr>content := JStr marked,
                       video_markers :=
                         map (\<lambda>m. \<lparr>marker_time = fst m, marker_description = snd m\<rparr>)
                             (find_markers E marked)\<rparr>) # ps',
                w'')))"

definition stage_video_mark :: "env \<Rightarrow> Document \<Rightarrow> world \<Rightarrow> Document \<times> world" where
  "stage_video_mark E doc w =
     (case video_mark_points E (doc_knowledge_points doc) w of
        (ps, w') \<Rightarrow> (doc\<lparr>doc_knowledge_points := ps\<rparr>, w'))"

text \<open>
  \<open>WorkflowEngine.process_document\<close>. There is no \<open>try\<close> in it: a failure of
  \<open>read_text\<close>, of stage 2 or of a save leaves it as an exception (\<open>Inl\<close>), with the
  ledger as the last \<open>update_status\<close> left it.
\<close>

definition process_document :: "env \<Rightarrow> string \<Rightarrow> world \<Rightarrow> (error + Document) \<times> world" where
  "process_document E doc_path w0 =
     (case add_document doc_path (tracker w0) of
        (doc_id, L1) \<Rightarrow>
          (case read_text E doc_path of
             Inl e \<Rightarrow> (Inl e, w0\<lparr>tracker := L1\<rparr>)
           | Inr text \<Rightarrow>
               (let doc0 = \<lparr>path = doc_path, doc_content = text, course_name = None,
                            doc_knowledge_points = [], metadata = []\<rparr>;
                    w2 = set_status doc_id ''processing'' ''cleaning'' (w0\<lparr>tracker := L1\<rparr>);
                    doc1 = doc0\<lparr>doc_content := clean (doc_content doc0)\<rparr>;
                    w3 = set_status doc_id ''processing'' ''noise_reduction'' w2
                in case stage_noise_reduction E doc1 w3 of
                     (Inl e, w4) \<Rightarrow> (Inl e, w4)
                   | (Inr doc2, w4) \<Rightarrow>
                       (case stage_structure E doc2 (set_status doc_id ''processing'' ''structuring'' w4) of
                          (doc3, w6) \<Rightarrow>
                            (case stage_video_mark E doc3
                                    (set_status doc_id ''processing'' ''video_marking'' w6) of
                               (doc4, w8) \<Rightarrow>
                                 (let w9 = set_status doc_id ''done'' ''completed'' w8
                                  in case save_points doc_id (doc_knowledge_points doc4) (tracker w9) of
                                       (None, L') \<Rightarrow> (Inr doc4, w9\<lparr>tracker := L'\<rparr>)
                                     | (Some e, L') \<Rightarrow> (Inl e, w9\<lparr>tracker := L'\<rparr>)))))))"

text \<open>The status and stage label the ledger holds for a path.\<close>

definition status_of :: "string \<Rightarrow> world \<Rightarrow> (string \<times> string option) option" where
  "status_of p w =
     map_option (\<lambda>r. (row_status r, row_stage r))
       (find (\<lambda>r. row_path r = p) (documents (tracker w)))"

subsection \<open>The ledger during a pipeline run\<close>

text \<open>\<open>tracked p d L\<close>: the row the ledger finds for path \<open>p\<close> has id \<open>d\<close>.\<close>

definition tracked :: "string \<Rightarrow> int \<Rightarrow> ledger \<Rightarrow> bool" where
  "tracked p d L =
     (case find (\<lambda>r. row_path r = p) (documents L) of Some r \<Rightarrow> row_id r = d | None \<Rightarrow> False)"

lemma find_map_same_path:
  "(\<And>r. row_path (f r) = row_path r) \<Longrightarrow>
     find (\<lambda>r. row_path r = p) (map f rows) = map_option f (find (\<lambda>r. row_path r = p) rows)"
  by (induction rows) auto

lemma add_document_tracked: "tracked p (fst (add_document p L)) (snd (add_document p L))"
proof (cases "p \<in> set (map row_path (documents L))")
  case True
  then obtain r where "find (\<lambda>r. row_path r = p) (documents L) = Some r"
    using find_path_present by blast
  with True show ?thesis
    by (simp add: add_document_present tracked_def get_doc_id_def)
next
  case False
  then show ?thesis
    by (simp add: add_document_def insert_or_ignore_def get_doc_id_def find_path_append_new
        Let_def tracked_def)
qed

lemma update_status_tracked:
  "tracked p d L \<Longrightarrow> tracked p d (update_status d' s st res L)"
  by (auto simp: tracked_def update_status_def find_map_same_path split: option.splits)

lemma set_status_tracked:
  "tracked p d (tracker w) \<Longrightarrow> tracked p d (tracker (set_status d' s st w))"
  by (simp add: set_status_def update_status_tracked)

lemma set_status_status_of:
  "tracked p d (tracker w) \<Longrightarrow> status_of p (set_status d s st w) = Some (s, Some st)"
  by (auto simp: tracked_def status_of_def set_status_def update_status_def find_map_same_path
      split: option.splits)

lemma generate_tracker [simp]: "tracker (snd (generate E pr w)) = tracker w"
  by (simp add: generate_def)

lemma stage_structure_tracker [simp]:
  "tracker (snd (stage_structure E doc w)) = tracker w"
  by (simp add: stage_structure_def generate_def split: sum.splits option.splits)

lemma video_mark_points_tracker [simp]:
  "tracker (snd (video_mark_points E ps w)) = tracker w"
proof (induction ps arbitrary: w)
  case Nil
  show ?case by simp
next
  case (Cons p ps)
  obtain r w' where g: "generate E (VideoMarkPrompt (title p) (content p)) w = (r, w')"
    by (cases "generate E (VideoMarkPrompt (title p) (content p)) w")
  obtain ps' w'' where v: "video_mark_points E ps w' = (ps', w'')"
    by (cases "video_mark_points E ps w'")
  have "tracker w'' = tracker w'"
    using Cons.IH [of w'] v by simp
  moreover have "tracker w' = tracker w"
    using g by (auto simp: generate_def)
  ultimately show ?case
    using g v by simp
qed

lemma stage_video_mark_tracker [simp]:
  "tracker (snd (stage_video_mark E doc w)) = tracker w"
proof -
  obtain ps w' where v: "video_mark_points E (doc_knowledge_points doc) w = (ps, w')"
    by (cases "video_mark_points E (doc_knowledge_points doc) w")
  then have "tracker w' = tracker w"
    using video_mark_points_tracker [of E "doc_knowledge_points doc" w] by simp
  with v show ?thesis
    by (simp add: stage_video_mark_def)
qed

lemma save_points_documents [simp]:
  "documents (snd (save_points d ps L)) = documents L"
  by (induction ps arbitrary: L) (auto simp: save_knowledge_point_def split: sum.splits)

text \<open>
  What a run of \<open>process_document\<close> leaves in the ledger, by the answer to the call of
  stage 2. A failure there leaves \<open>process_document\<close> as an exception and the row as the
  transition into stage 2 wrote it. When stage 2 answers, stages 3 and 4 absorb their own
  failures and the row ends as done.
\<close>

lemma process_document_outcome:
  assumes "read_text E p = Inr text"
  shows "case llm E (llm_calls w) (NoiseReductionPrompt (take 4000 (clean text))) of
           Inl e \<Rightarrow>
             fst (process_document E p w) = Inl e
             \<and> status_of p (snd (process_document E p w)) = Some (''processing'', Some ''noise_reduction'')
         | Inr reply \<Rightarrow>
             status_of p (snd (process_document E p w)) = Some (''done'', Some ''completed'')"
proof -
  obtain d L1 where a: "add_document p (tracker w) = (d, L1)"
    by (cases "add_document p (tracker w)")
  have t1: "tracked p d L1"
    using add_document_tracked [of p "tracker w"] a by simp
  define w2 where "w2 = set_status d ''processing'' ''cleaning'' (w\<lparr>tracker := L1\<rparr>)"
  define w3 where "w3 = set_status d ''processing'' ''noise_reduction'' w2"
  define doc1 where "doc1 = \<lparr>path = p, doc_content = clean text, course_name = None,
                            doc_knowledge_points = [], metadata = []\<rparr>"
  have t2: "tracked p d (tracker w2)"
    unfolding w2_def using t1 by (simp add: set_status_tracked)
  have t3: "tracked p d (tracker w3)"
    unfolding w3_def using t2 by (rule set_status_tracked)
  have s3: "status_of p w3 = Some (''processing'', Some ''noise_reduction'')"
    unfolding w3_def using t2 by (rule set_status_status_of)
  have c3: "llm_calls w3 = llm_calls w"
    by (simp add: w3_def w2_def set_status_def)
  have pd: "process_document E p w =
     (case stage_noise_reduction E doc1 w3 of
        (Inl e, w4) \<Rightarrow> (Inl e, w4)
      | (Inr doc2, w4) \<Rightarrow>
          (case stage_structure E doc2 (set_status d ''processing'' ''structuring'' w4) of
             (doc3, w6) \<Rightarrow>
               (case stage_video_mark E doc3 (set_status d ''processing'' ''video_marking'' w6) of
                  (doc4, w8) \<Rightarrow>
                    (let w9 = set_status d ''done'' ''completed'' w8
                     in case save_points d (doc_knowledge_points doc4) (tracker w9) of
                          (None, L') \<Rightarrow> (Inr doc4, w9\<lparr>tracker := L'\<rparr>)
                        | (Some e, L') \<Rightarrow> (Inl e, w9\<lparr>tracker := L'\<rparr>)))))"
    by (simp add: process_document_def a assms Let_def w2_def w3_def doc1_def)
  show ?thesis
  proof (cases "llm E (llm_calls w) (NoiseReductionPrompt (take 4000 (clean text)))")
    case (Inl e)
    then have "stage_noise_reduction E doc1 w3 = (Inl e, w3\<lparr>llm_calls := Suc (llm_calls w3)\<rparr>)"
      by (simp add: stage_noise_reduction_def generate_def doc1_def c3)
    with Inl pd s3 show ?thesis
      by (simp add: status_of_def)
  next
    case (Inr reply)
    define w4 where "w4 = w3\<lparr>llm_calls := Suc (llm_calls w3)\<rparr>"
    define doc2 where "doc2 = doc1\<lparr>doc_content := reply\<rparr>"
    from Inr have n: "stage_noise_reduction E doc1 w3 = (Inr doc2, w4)"
      by (simp add: stage_noise_reduction_def generate_def doc1_def c3 w4_def doc2_def)
    have t4: "tracked p d (tracker w4)"
      using t3 by (simp add: w4_def)
    define w5 where "w5 = set_status d ''processing'' ''structuring'' w4"
    obtain doc3 w6 where st: "stage_structure E doc2 w5 = (doc3, w6)"
      by (cases "stage_structure E doc2 w5")
    have "tracker w6 = tracker w5"
      using arg_cong [OF st, of "\<lambda>x. tracker (snd x)"] by simp
    with t4 have t6: "tracked p d (tracker w6)"
      by (simp add: w5_def set_status_tracked)
    define w7 where "w7 = set_status d ''processing'' ''video_marking'' w6"
    obtain doc4 w8 where vm: "stage_video_mark E doc3 w7 = (doc4, w8)"
      by (cases "stage_video_mark E doc3 w7")
    have "tracker w8 = tracker w7"
      using arg_cong [OF vm, of "\<lambda>x. tracker (snd x)"] by simp
    with t6 have t8: "tracked p d (tracker w8)"
      by (simp add: w7_def set_status_tracked)
    define w9 where "w9 = set_status d ''done'' ''completed'' w8"
    have s9: "status_of p w9 = Some (''done'', Some ''completed'')"
      unfolding w9_def using t8 by (rule set_status_status_of)
    obtain r L' where sp: "save_points d (doc_knowledge_points doc4) (tracker w9) = (r, L')"
      by (cases "save_points d (doc_knowledge_points doc4) (tracker w9)")
    have dl: "documents L' = documents (tracker w9)"
      using arg_cong [OF sp, of "\<lambda>x. documents (snd x)"] by simp
    have "status_of p (snd (process_document E p w)) = status_of p w9"
      using pd n st vm sp dl
      by (cases r) (simp_all add: w5_def w7_def w9_def status_of_def)
    with Inr s9 show ?thesis by simp
  qed
qed

text \<open>An environment whose generative service is down, and a run that starts on an empty ledger.\<close>

definition failing_env :: env where
  "failing_env =
     \<lparr>llm = (\<lambda>n pr. Inl (ServiceError ''unavailable'')),
      read_text = (\<lambda>p. Inr ''Limits describe the value a function approaches.''),
      json_loads = (\<lambda>s. None),
      find_markers = (\<lambda>s. [])\<rparr>"

definition fresh_world :: world where
  "fresh_world = \<lparr>tracker = empty_ledger, llm_calls = 0\<rparr>"

text \<open>
  Claim C1, as the code has it. For a document whose text can be read: when the
  generative call of stage 2 (condense) fails, \<open>process_document\<close> does not catch the
  failure; it leaves as that exception, and the ledger row of the document stays in
  status "processing" with the stage label "noise_reduction". When stage 2 answers, no
  failure of a generative call in stages 3 and 4 reaches the pipeline boundary, and the
  row ends in status "done" with the label "completed". No run records the status
  "failed".
\<close>

theorem process_document_status:
  assumes "read_text E p = Inr text"
  shows "case llm E (llm_calls w) (NoiseReductionPrompt (take 4000 (clean text))) of
           Inl e \<Rightarrow>
             fst (process_document E p w) = Inl e
             \<and> status_of p (snd (process_document E p w)) = Some (''processing'', Some ''noise_reduction'')
         | Inr reply \<Rightarrow>
             status_of p (snd (process_document E p w)) = Some (''done'', Some ''completed'')"
  using assms by (rule process_document_outcome)

theorem process_document_status_witness:
  "read_text failing_env ''a.srt'' = Inr ''Limits describe the value a function approaches.''
   \<and> fst (process_document failing_env ''a.srt'' fresh_world) = Inl (ServiceError ''unavailable'')
   \<and> status_of ''a.srt'' (snd (process_document failing_env ''a.srt'' fresh_world))
       = Some (''processing'', Some ''noise_reduction'')"
proof -
  have r: "read_text failing_env ''a.srt'' = Inr ''Limits describe the value a function approaches.''"
    by (simp add: failing_env_def)
  have l: "llm failing_env (llm_calls fresh_world)
             (NoiseReductionPrompt (take 4000 (clean ''Limits describe the value a function approaches.'')))
           = Inl (ServiceError ''unavailable'')"
    by (simp add: failing_env_def)
  from process_document_status [OF r, of fresh_world] l r show ?thesis
    by simp
qed

text \<open>
  The claim as stated fails on this run: the failure of stage 2 leaves
  \<open>process_document\<close> as an exception, and the status recorded is "processing", not
  "failed".
\<close>

theorem process_document_failure_not_recorded:
  "fst (process_document failing_env ''a.srt'' fresh_world) = Inl (ServiceError ''unavailable'')
   \<and> map_option fst (status_of ''a.srt'' (snd (process_document failing_env ''a.srt'' fresh_world)))
       = Some ''processing''
   \<and> map_option fst (status_of ''a.srt'' (snd (process_document failing_env ''a.srt'' fresh_world)))
       \<noteq> Some ''failed''"
proof -
  have r: "read_text failing_env ''a.srt'' = Inr ''Limits describe the value a function approaches.''"
    by (simp add: failing_env_def)
  have l: "llm failing_env (llm_calls fresh_world)
             (NoiseReductionPrompt (take 4000 (clean ''Limits describe the value a function approaches.'')))
           = Inl (ServiceError ''unavailable'')"
    by (simp add: failing_env_def)
  from process_document_outcome [OF r, of fresh_world] l show ?thesis
    by simp
qed

subsection \<open>Stage 3 and its fallback\<close>

lemma star_greedy_no_brace:
  "(\<And>b r. CHR ''}'' \<notin> set r \<Longrightarrow> k b r = None) \<Longrightarrow> CHR ''}'' \<notin> set rest \<Longrightarrow>
     star_greedy c bef rest k = None"
  by (induction rest arbitrary: bef) auto

lemma brace_pattern_needs_open:
  "CHR ''{'' \<notin> set rest \<Longrightarrow> rx_search_from brace_pattern bef rest = None"
proof (induction rest arbitrary: bef)
  case Nil
  show ?case
    by (simp add: brace_pattern_def rx_match_at_def)
next
  case (Cons x xs)
  then have "x \<noteq> CHR ''{''" by auto
  then have "rx_match_at brace_pattern bef (x # xs) = None"
    by (simp add: brace_pattern_def rx_match_at_def)
  with Cons show ?case by simp
qed

text \<open>A reply without an opening brace: stage 3 assigns nothing, the point list stays as it was.\<close>

lemma stage_structure_without_braces:
  assumes "llm E (llm_calls w) (StructurePrompt (take 3000 (doc_content doc))) = Inr reply"
    and "CHR ''{'' \<notin> set reply"
  shows "fst (stage_structure E doc w) = doc"
  using assms
  by (simp add: stage_structure_def generate_def structure_attempt_def re_search_def
      brace_pattern_needs_open)

text \<open>A failed call or a reply whose braces do not decode: the fallback of the \<open>except\<close> branch.\<close>

lemma stage_structure_fallback:
  assumes "structure_attempt E (path doc)
             (llm E (llm_calls w) (StructurePrompt (take 3000 (doc_content doc)))) = Inl e"
  shows "doc_knowledge_points (fst (stage_structure E doc w)) =
           [\<lparr>title = JStr fallback_title, content = JStr (take 1000 (doc_content doc)),
             video_markers = [], source_file = path doc, importance = 3\<rparr>]"
  using assms by (simp add: stage_structure_def generate_def)

text \<open>A service that answers every prompt with one sentence of plain prose.\<close>

definition prose_env :: env where
  "prose_env =
     \<lparr>llm = (\<lambda>n pr. Inr ''Limits come first.''),
      read_text = (\<lambda>p. Inr ''Limits describe the value a function approaches.''),
      json_loads = (\<lambda>s. None),
      find_markers = (\<lambda>s. [])\<rparr>"

definition condensed_doc :: Document where
  "condensed_doc =
     \<lparr>path = ''a.srt'', doc_content = ''Limits describe values.'', course_name = None,
      doc_knowledge_points = [], metadata = []\<rparr>"

text \<open>
  Claim C5 (the code departs from it). The reply below holds no fragment list, so the
  extraction fails, and the claim expects the single fallback fragment. The source takes
  the fallback only in its \<open>except\<close> branch; a reply without braces raises nothing
  (\<open>json_match\<close> is \<open>None\<close>), and the document leaves stage 3 with no fragment at all.
\<close>

theorem stage_structure_prose_reply_no_fragment:
  "doc_knowledge_points (fst (stage_structure prose_env condensed_doc fresh_world)) = []"
proof -
  have "fst (stage_structure prose_env condensed_doc fresh_world) = condensed_doc"
    by (rule stage_structure_without_braces [where reply = "''Limits come first.''"])
       (simp_all add: prose_env_def)
  then show ?thesis
    by (simp add: condensed_doc_def)
qed

section \<open>The parallel scheduler (src/src/parallel.py, class ParallelProcessor)\<close>

text \<open>
  \<open>_process_with_limit\<close>: the task enters \<open>self.engine.process_document\<close> inside
  \<open>async with self.semaphore\<close>, and the semaphore is created with \<open>max_workers\<close> permits
  (a negative number makes the constructor raise \<open>ValueError\<close>, so that there is no
  scheduler to run). With no permit the task waits for a release that never comes and does
  not finish: \<open>None\<close>. With at least one permit the task is admitted, at once or when an
  earlier task leaves the block, and runs the engine on its file. \<open>engine\<close> is
  \<open>self.engine.process_document\<close>, a function on a world of any type that returns either
  the exception raised or the document.
\<close>

definition process_with_limit ::
  "(string \<Rightarrow> 'w \<Rightarrow> (error + 'd) \<times> 'w) \<Rightarrow> nat \<Rightarrow> string \<Rightarrow> 'w \<Rightarrow> ((error + 'd) \<times> 'w) option" where
  "process_with_limit engine max_workers file_path w =
     (if max_workers = 0 then None else Some (engine file_path w))"

text \<open>
  \<open>asyncio.gather(*tasks, return_exceptions=True)\<close>: it returns when every task has
  finished, with the outcome of each task, a document or the exception it raised, at the
  task's place in the result list; when a task never finishes it never returns. The
  model runs the tasks one after the other in the order of the list, which is the order
  in which asyncio starts them and in which the semaphore admits them; the interleaving
  of the admitted tasks at their suspension points is not modelled.
\<close>

fun gather ::
  "(string \<Rightarrow> 'w \<Rightarrow> (error + 'd) \<times> 'w) \<Rightarrow> nat \<Rightarrow> string list \<Rightarrow> 'w
     \<Rightarrow> ((error + 'd) list \<times> 'w) option" where
  "gather engine max_workers [] w = Some ([], w)"
| "gather engine max_workers (f # fs) w =
     (case process_with_limit engine max_workers f w of
        None \<Rightarrow> None
      | Some (r, w') \<Rightarrow>
          (case gather engine max_workers fs w' of
             None \<Rightarrow> None
           | Some (rs, w'') \<Rightarrow> Some (r # rs, w'')))"








lemma upt_Suc_shift: "[0..<Suc n] = 0 # map Suc [0..<n]"
proof -
  have "[0..<Suc n] = 0 # [Suc 0..<Suc n]"
    by (rule upt_conv_Cons) simp
  then show ?thesis
    by (simp only: map_Suc_upt)
qed


lemma gather_without_permit:
  "files \<noteq> [] \<Longrightarrow> gather engine 0 files w = None"
  by (cases files) (simp_all add: process_with_limit_def)





section \<open>The similarity ratio of difflib (Python standard library, class SequenceMatcher)\<close>

text \<open>
  \<open>_calculate_similarity\<close> calls \<open>SequenceMatcher(None, a, b).ratio()\<close>. The model
  follows CPython's \<open>difflib\<close>: no junk predicate, the automatic junk heuristic on. A
  match is a triple (start in \<open>a\<close>, start in \<open>b\<close>, size).
\<close>

type_synonym match = "nat \<times> nat \<times> nat"

text \<open>
  \<open>__chain_b\<close>: \<open>b2j\<close> maps a character to the ascending list of its positions in \<open>b\<close>.
  When \<open>b\<close> has 200 characters or more, the characters that occur more than
  \<open>len(b) // 100 + 1\<close> times are "popular" and are removed from \<open>b2j\<close>. The set \<open>bjunk\<close>
  is empty, since no junk predicate is given.
\<close>

definition popular :: "string \<Rightarrow> char \<Rightarrow> bool" where
  "popular b c = (200 \<le> length b \<and> length b div 100 + 1 < count_list b c)"

definition b2j :: "string \<Rightarrow> char \<Rightarrow> nat list" where
  "b2j b c = (if popular b c then [] else filter (\<lambda>j. b ! j = c) [0..<length b])"

definition isbjunk :: "char \<Rightarrow> bool" where
  "isbjunk c = False"

text \<open>
  \<open>find_longest_match\<close>. The dictionary \<open>j2len\<close> is a function with 0 for a missing key
  (the source reads it with \<open>get(j-1, 0)\<close>). \<open>flm_inner\<close> is the loop over the positions
  \<open>j\<close> of \<open>a[i]\<close> in \<open>b\<close>, with its \<open>continue\<close> and \<open>break\<close>; \<open>flm_row\<close> is one round of
  the loop over \<open>i\<close>, which starts from an empty \<open>newj2len\<close>.
\<close>

fun flm_inner ::
  "nat \<Rightarrow> nat \<Rightarrow> nat \<Rightarrow> (nat \<Rightarrow> nat) \<Rightarrow> nat list \<Rightarrow> (nat \<Rightarrow> nat) \<times> match \<Rightarrow> (nat \<Rightarrow> nat) \<times> match" where
  "flm_inner i blo bhi j2len [] st = st"
| "flm_inner i blo bhi j2len (j # js) (newj2len, besti, bestj, bestsize) =
     (if j < blo then flm_inner i blo bhi j2len js (newj2len, besti, bestj, bestsize)
      else if bhi \<le> j then (newj2len, besti, bestj, bestsize)
      else (let k = (if j = 0 then 0 else j2len (j - 1)) + 1
            in flm_inner i blo bhi j2len js
                 (newj2len(j := k),
                  if bestsize < k then (i + 1 - k, j + 1 - k, k) else (besti, bestj, bestsize))))"

definition flm_row ::
  "string \<Rightarrow> string \<Rightarrow> nat \<Rightarrow> nat \<Rightarrow> nat \<Rightarrow> (nat \<Rightarrow> nat) \<times> match \<Rightarrow> (nat \<Rightarrow> nat) \<times> match" where
  "flm_row a b blo bhi i st = flm_inner i blo bhi (fst st) (b2j b (a ! i)) (\<lambda>j. 0, snd st)"

text \<open>
  The four \<open>while\<close> loops that extend the best match: backwards and forwards over
  characters that are not junk, then over junk. \<open>want\<close> is the test on \<open>b[...]\<close>.
\<close>

function extend_back :: "string \<Rightarrow> string \<Rightarrow> nat \<Rightarrow> nat \<Rightarrow> (char \<Rightarrow> bool) \<Rightarrow> match \<Rightarrow> match" where
  "extend_back a b alo blo want (besti, bestj, bestsize) =
     (if alo < besti \<and> blo < bestj \<and> want (b ! (bestj - 1)) \<and> a ! (besti - 1) = b ! (bestj - 1)
      then extend_back a b alo blo want (besti - 1, bestj - 1, bestsize + 1)
      else (besti, bestj, bestsize))"
  by pat_completeness auto
termination
  by (relation "measure (\<lambda>(a, b, alo, blo, want, besti, bestj, bestsize). besti)") auto

declare extend_back.simps [simp del]

function extend_forward :: "string \<Rightarrow> string \<Rightarrow> nat \<Rightarrow> nat \<Rightarrow> (char \<Rightarrow> bool) \<Rightarrow> match \<Rightarrow> match" where
  "extend_forward a b ahi bhi want (besti, bestj, bestsize) =
     (if besti + bestsize < ahi \<and> bestj + bestsize < bhi \<and> want (b ! (bestj + bestsize))
         \<and> a ! (besti + bestsize) = b ! (bestj + bestsize)
      then extend_forward a b ahi bhi want (besti, bestj, bestsize + 1)
      else (besti, bestj, bestsize))"
  by pat_completeness auto
termination
  by (relation "measure (\<lambda>(a, b, ahi, bhi, want, besti, bestj, bestsize). ahi - (besti + bestsize))") auto

declare extend_forward.simps [simp del]

definition find_longest_match :: "string \<Rightarrow> string \<Rightarrow> nat \<Rightarrow> nat \<Rightarrow> nat \<Rightarrow> nat \<Rightarrow> match" where
  "find_longest_match a b alo ahi blo bhi =
     (let best0 = snd (fold (flm_row a b blo bhi) [alo..<ahi] (\<lambda>j. 0, alo, blo, 0));
          best1 = extend_back a b alo blo (\<lambda>c. \<not> isbjunk c) best0;
          best2 = extend_forward a b ahi bhi (\<lambda>c. \<not> isbjunk c) best1;
          best3 = extend_back a b alo blo isbjunk best2
      in extend_forward a b ahi bhi isbjunk best3)"

subsection \<open>The match lies inside the ranges it was searched in\<close>

definition row_ok :: "nat \<Rightarrow> nat \<Rightarrow> nat \<Rightarrow> (nat \<Rightarrow> nat) \<Rightarrow> bool" where
  "row_ok n blo bhi f = (\<forall>j. f j \<le> n \<and> f j \<le> j + 1 - blo \<and> (0 < f j \<longrightarrow> blo \<le> j \<and> j < bhi))"

definition best_ok :: "nat \<Rightarrow> nat \<Rightarrow> nat \<Rightarrow> nat \<Rightarrow> match \<Rightarrow> bool" where
  "best_ok alo hi blo bhi m =
     (case m of (i, j, k) \<Rightarrow> alo \<le> i \<and> i + k \<le> hi \<and> blo \<le> j \<and> j + k \<le> bhi)"

lemma row_okD:
  "row_ok n blo bhi f \<Longrightarrow> f j \<le> n \<and> f j \<le> j + 1 - blo \<and> (0 < f j \<longrightarrow> blo \<le> j \<and> j < bhi)"
  by (simp add: row_ok_def)

lemma row_ok_upd:
  "row_ok n blo bhi f \<Longrightarrow> k \<le> n \<Longrightarrow> k \<le> j + 1 - blo \<Longrightarrow> blo \<le> j \<Longrightarrow> j < bhi \<Longrightarrow>
     row_ok n blo bhi (f(j := k))"
  by (simp add: row_ok_def)

lemma flm_inner_ok:
  assumes "row_ok n blo bhi j2len" "row_ok (Suc n) blo bhi nj" "best_ok alo (alo + Suc n) blo bhi best"
  shows "row_ok (Suc n) blo bhi (fst (flm_inner (alo + n) blo bhi j2len js (nj, best)))
         \<and> best_ok alo (alo + Suc n) blo bhi (snd (flm_inner (alo + n) blo bhi j2len js (nj, best)))"
  using assms(2,3)
proof (induction js arbitrary: nj best)
  case Nil
  then show ?case by simp
next
  case (Cons j js)
  obtain bi bj bs where best: "best = (bi, bj, bs)"
    by (cases best)
  show ?case
  proof (cases "j < blo")
    case True
    with Cons best show ?thesis by simp
  next
    case lo: False
    show ?thesis
    proof (cases "bhi \<le> j")
      case True
      with lo Cons.prems best show ?thesis by simp
    next
      case hi: False
      define k where "k = (if j = 0 then 0 else j2len (j - 1)) + 1"
      have kn: "k \<le> Suc n"
        using row_okD [OF assms(1), of "j - 1"] by (simp add: k_def)
      have kj: "k \<le> j + 1 - blo"
      proof (cases "j = 0 \<or> j2len (j - 1) = 0")
        case True
        with lo show ?thesis by (auto simp: k_def)
      next
        case F: False
        with row_okD [OF assms(1), of "j - 1"] have "blo \<le> j - 1" "j2len (j - 1) \<le> j - blo"
          by simp_all
        with F show ?thesis by (simp add: k_def)
      qed
      have r: "row_ok (Suc n) blo bhi (nj(j := k))"
        using row_ok_upd [OF Cons.prems(1) kn kj] lo hi by simp
      have "best_ok alo (alo + Suc n) blo bhi (alo + n + 1 - k, j + 1 - k, k)"
        using kn kj lo hi unfolding best_ok_def by auto
      with Cons.prems(2) best
      have b: "best_ok alo (alo + Suc n) blo bhi
                 (if bs < k then (alo + n + 1 - k, j + 1 - k, k) else (bi, bj, bs))"
        by simp
      have eq: "flm_inner (alo + n) blo bhi j2len (j # js) (nj, best)
              = flm_inner (alo + n) blo bhi j2len js
                  (nj(j := k), if bs < k then (alo + n + 1 - k, j + 1 - k, k) else (bi, bj, bs))"
        using lo hi best by (simp add: k_def Let_def)
      show ?thesis
        unfolding eq by (rule Cons.IH [OF r b])
    qed
  qed
qed

lemma flm_rows_ok:
  assumes "blo \<le> bhi"
  shows "row_ok n blo bhi (fst (fold (flm_row a b blo bhi) [alo..<alo + n] (\<lambda>j. 0, alo, blo, 0)))
         \<and> best_ok alo (alo + n) blo bhi
             (snd (fold (flm_row a b blo bhi) [alo..<alo + n] (\<lambda>j. 0, alo, blo, 0)))"
proof (induction n)
  case 0
  with assms show ?case by (simp add: row_ok_def best_ok_def)
next
  case (Suc n)
  define st where "st = fold (flm_row a b blo bhi) [alo..<alo + n] (\<lambda>j. 0, alo, blo, 0)"
  have r: "row_ok n blo bhi (fst st)" and b: "best_ok alo (alo + n) blo bhi (snd st)"
    using Suc by (simp_all add: st_def)
  have b': "best_ok alo (alo + Suc n) blo bhi (snd st)"
    using b by (auto simp: best_ok_def)
  have z: "row_ok (Suc n) blo bhi (\<lambda>j. 0)"
    by (simp add: row_ok_def)
  have "fold (flm_row a b blo bhi) [alo..<alo + Suc n] (\<lambda>j. 0, alo, blo, 0)
          = flm_inner (alo + n) blo bhi (fst st) (b2j b (a ! (alo + n))) (\<lambda>j. 0, snd st)"
    by (simp add: st_def flm_row_def)
  with flm_inner_ok [OF r z b'] show ?case by simp
qed

lemma extend_back_ok:
  "best_ok alo hi blo bhi m \<Longrightarrow> best_ok alo hi blo bhi (extend_back a b alo blo want m)"
proof (induction a b alo blo want m rule: extend_back.induct)
  case (1 a b alo blo want besti bestj bestsize)
  show ?case
  proof (cases "alo < besti \<and> blo < bestj \<and> want (b ! (bestj - 1)) \<and> a ! (besti - 1) = b ! (bestj - 1)")
    case True
    with "1.prems" have "best_ok alo hi blo bhi (besti - 1, bestj - 1, bestsize + 1)"
      by (auto simp: best_ok_def)
    then have "best_ok alo hi blo bhi
                 (extend_back a b alo blo want (besti - 1, bestj - 1, bestsize + 1))"
      by (rule "1.IH" [OF True])
    moreover have "extend_back a b alo blo want (besti, bestj, bestsize)
                     = extend_back a b alo blo want (besti - 1, bestj - 1, bestsize + 1)"
      using True by (subst extend_back.simps) simp
    ultimately show ?thesis by simp
  next
    case False
    then have "extend_back a b alo blo want (besti, bestj, bestsize) = (besti, bestj, bestsize)"
      by (subst extend_back.simps) auto
    with "1.prems" show ?thesis by simp
  qed
qed

lemma extend_forward_ok:
  "best_ok alo ahi blo bhi m \<Longrightarrow> best_ok alo ahi blo bhi (extend_forward a b ahi bhi want m)"
proof (induction a b ahi bhi want m rule: extend_forward.induct)
  case (1 a b ahi bhi want besti bestj bestsize)
  show ?case
  proof (cases "besti + bestsize < ahi \<and> bestj + bestsize < bhi \<and> want (b ! (bestj + bestsize))
         \<and> a ! (besti + bestsize) = b ! (bestj + bestsize)")
    case True
    with "1.prems" have "best_ok alo ahi blo bhi (besti, bestj, bestsize + 1)"
      by (auto simp: best_ok_def)
    then have "best_ok alo ahi blo bhi
                 (extend_forward a b ahi bhi want (besti, bestj, bestsize + 1))"
      by (rule "1.IH" [OF True])
    moreover have "extend_forward a b ahi bhi want (besti, bestj, bestsize)
                     = extend_forward a b ahi bhi want (besti, bestj, bestsize + 1)"
      using True by (subst extend_forward.simps) simp
    ultimately show ?thesis by simp
  next
    case False
    then have "extend_forward a b ahi bhi want (besti, bestj, bestsize) = (besti, bestj, bestsize)"
      by (subst extend_forward.simps) auto
    with "1.prems" show ?thesis by simp
  qed
qed

lemma find_longest_match_bounds:
  assumes "alo \<le> ahi" "blo \<le> bhi"
  shows "best_ok alo ahi blo bhi (find_longest_match a b alo ahi blo bhi)"
proof -
  from assms(1) obtain n where n: "ahi = alo + n"
    using le_Suc_ex by blast
  have "best_ok alo ahi blo bhi (snd (fold (flm_row a b blo bhi) [alo..<ahi] (\<lambda>j. 0, alo, blo, 0)))"
    using flm_rows_ok [OF assms(2), of n a b alo] n by simp
  then show ?thesis
    unfolding find_longest_match_def Let_def
    by (intro extend_forward_ok extend_back_ok)
qed

lemma flm_inner_empty_range:
  "bhi \<le> blo \<Longrightarrow> snd (flm_inner i blo bhi j2len js (nj, best)) = best"
proof (induction js arbitrary: nj)
  case Nil
  show ?case by simp
next
  case (Cons j js)
  obtain bi bj bs where best: "best = (bi, bj, bs)"
    by (cases best)
  from Cons show ?case
    by (cases "j < blo") (simp_all add: best)
qed

lemma flm_rows_empty_range:
  "bhi \<le> blo \<Longrightarrow> snd (fold (flm_row a b blo bhi) rows (f, best)) = best"
proof (induction rows arbitrary: f)
  case Nil
  show ?case by simp
next
  case (Cons i rows)
  obtain f' where "flm_row a b blo bhi i (f, best) = (f', best)"
    using flm_inner_empty_range [OF Cons.prems, of i f "b2j b (a ! i)" "\<lambda>j. 0" best]
    by (cases "flm_row a b blo bhi i (f, best)") (simp add: flm_row_def)
  with Cons show ?case by simp
qed

lemma extend_back_at_start: "extend_back a b alo blo want (alo, j, k) = (alo, j, k)"
  by (subst extend_back.simps) simp

lemma extend_forward_at_end_a: "ahi \<le> i + k \<Longrightarrow> extend_forward a b ahi bhi want (i, j, k) = (i, j, k)"
  by (subst extend_forward.simps) simp

lemma extend_forward_at_end_b: "bhi \<le> j + k \<Longrightarrow> extend_forward a b ahi bhi want (i, j, k) = (i, j, k)"
  by (subst extend_forward.simps) simp

lemma find_longest_match_empty:
  assumes "ahi < alo \<or> bhi < blo"
  shows "find_longest_match a b alo ahi blo bhi = (alo, blo, 0)"
proof -
  have "snd (fold (flm_row a b blo bhi) [alo..<ahi] (\<lambda>j. 0, alo, blo, 0)) = (alo, blo, 0)"
  proof (cases "ahi < alo")
    case True
    then show ?thesis by simp
  next
    case False
    with assms have "bhi \<le> blo" by simp
    then show ?thesis by (rule flm_rows_empty_range)
  qed
  moreover have "extend_forward a b ahi bhi want (alo, blo, 0) = (alo, blo, 0)" for want
    using assms extend_forward_at_end_a [of ahi alo 0] extend_forward_at_end_b [of bhi blo 0]
    by auto
  ultimately show ?thesis
    by (simp add: find_longest_match_def extend_back_at_start)
qed

lemma find_longest_match_a_side:
  assumes "find_longest_match a b alo ahi blo bhi = (i, j, k)" "k \<noteq> 0"
  shows "alo \<le> i \<and> i + k \<le> ahi \<and> blo \<le> j \<and> j + k \<le> bhi"
proof (cases "ahi < alo \<or> bhi < blo")
  case True
  from find_longest_match_empty [OF this] assms show ?thesis by simp
next
  case False
  then have "alo \<le> ahi" "blo \<le> bhi" by simp_all
  from find_longest_match_bounds [OF this, of a b] assms(1) show ?thesis
    by (simp add: best_ok_def)
qed

text \<open>
  \<open>get_matching_blocks\<close>: the loop over the queue of ranges still to be searched. The
  list is used as a stack (\<open>queue.pop()\<close> takes the range appended last). Its termination
  rests on the bounds just proved. \<open>ratio\<close> only sums the sizes of the blocks; sorting them
  and merging adjacent ones, which the source does next, does not change the sum and is
  not modelled. The floating-point quotient \<open>2.0 * matches / length\<close> is the exact
  quotient here.
\<close>

function mb_loop :: "string \<Rightarrow> string \<Rightarrow> (nat \<times> nat \<times> nat \<times> nat) list \<Rightarrow> match list \<Rightarrow> match list" where
  "mb_loop a b [] matching_blocks = matching_blocks"
| "mb_loop a b ((alo, ahi, blo, bhi) # queue) matching_blocks =
     (case find_longest_match a b alo ahi blo bhi of
        (i, j, k) \<Rightarrow>
          if k = 0 then mb_loop a b queue matching_blocks
          else mb_loop a b
                 ((if i + k < ahi \<and> j + k < bhi then [(i + k, ahi, j + k, bhi)] else [])
                  @ (if alo < i \<and> blo < j then [(alo, i, blo, j)] else []) @ queue)
                 (matching_blocks @ [(i, j, k)]))"
  by pat_completeness auto
termination
  apply (relation "measure (\<lambda>(a, b, queue, blocks).
                   sum_list (map (\<lambda>(alo, ahi, blo, bhi). 2 * (ahi - alo) + 1) queue))")
  apply simp
  apply simp
  apply (auto dest!: sym [of "(_, _, _)" "find_longest_match _ _ _ _ _ _"] dest: find_longest_match_a_side)
  done

declare mb_loop.simps [simp del]

definition get_matching_blocks :: "string \<Rightarrow> string \<Rightarrow> match list" where
  "get_matching_blocks a b = mb_loop a b [(0, length a, 0, length b)] []"

definition ratio :: "string \<Rightarrow> string \<Rightarrow> real" where
  "ratio a b =
     (let matches = sum_list (map (\<lambda>(i, j, k). k) (get_matching_blocks a b));
          len = length a + length b
      in if len \<noteq> 0 then 2 * real matches / real len else 1)"

subsection \<open>A text compared with itself\<close>

text \<open>
  \<open>diag_run x j\<close> is the number of consecutive characters of \<open>x\<close> that end at position
  \<open>j\<close> and are not popular. When \<open>x\<close> is matched against itself, the main loop of
  \<open>find_longest_match\<close> always holds a best match on the diagonal: a run off the diagonal
  is never longer than the run on the diagonal that was seen first.
\<close>

fun diag_run :: "string \<Rightarrow> nat \<Rightarrow> nat" where
  "diag_run x 0 = (if popular x (x ! 0) then 0 else 1)"
| "diag_run x (Suc j) = (if popular x (x ! Suc j) then 0 else diag_run x j + 1)"

definition prev_len :: "(nat \<Rightarrow> nat) \<Rightarrow> nat \<Rightarrow> nat" where
  "prev_len f j = (if j = 0 then 0 else f (j - 1))"

lemma diag_run_eq:
  "diag_run x j = (if popular x (x ! j) then 0 else prev_len (diag_run x) j + 1)"
  by (cases j) (simp_all add: prev_len_def)

lemma prev_len_mono: "(\<And>j. f j \<le> g j) \<Longrightarrow> prev_len f j \<le> prev_len g j"
  by (simp add: prev_len_def)

lemma prev_len_le: "(\<And>j. f j \<le> c) \<Longrightarrow> prev_len f j \<le> c"
  by (simp add: prev_len_def)

lemma flm_inner_step:
  "blo \<le> j \<Longrightarrow> j < bhi \<Longrightarrow>
     flm_inner i blo bhi f (j # js) (nj, bi, bj, bs)
       = flm_inner i blo bhi f js
           (nj(j := prev_len f j + 1),
            if bs < prev_len f j + 1
            then (i + 1 - (prev_len f j + 1), j + 1 - (prev_len f j + 1), prev_len f j + 1)
            else (bi, bj, bs))"
  by (simp add: prev_len_def Let_def)

lemma flm_inner_fst:
  "(\<And>j. j \<in> set js \<Longrightarrow> blo \<le> j \<and> j < bhi) \<Longrightarrow>
     fst (flm_inner i blo bhi f js (nj, best))
       = (\<lambda>j. if j \<in> set js then prev_len f j + 1 else nj j)"
proof (induction js arbitrary: nj best)
  case Nil
  show ?case by simp
next
  case (Cons j js)
  obtain bi bj bs where best: "best = (bi, bj, bs)"
    by (cases best)
  have j: "blo \<le> j" "j < bhi"
    using Cons.prems [of j] by simp_all
  have "fst (flm_inner i blo bhi f (j # js) (nj, best))
          = (\<lambda>j'. if j' \<in> set js then prev_len f j' + 1 else (nj(j := prev_len f j + 1)) j')"
    unfolding best flm_inner_step [OF j]
    by (rule Cons.IH) (simp add: Cons.prems)
  then show ?case
    by (auto simp: fun_eq_iff)
qed

lemma flm_inner_no_update:
  "(\<And>j. j \<in> set js \<Longrightarrow> blo \<le> j \<and> j < bhi \<and> prev_len f j + 1 \<le> bs) \<Longrightarrow>
     snd (flm_inner i blo bhi f js (nj, bi, bj, bs)) = (bi, bj, bs)"
proof (induction js arbitrary: nj)
  case Nil
  show ?case by simp
next
  case (Cons j js)
  have j: "blo \<le> j" "j < bhi" "\<not> bs < prev_len f j + 1"
    using Cons.prems [of j] by simp_all
  have "snd (flm_inner i blo bhi f js (nj(j := prev_len f j + 1), bi, bj, bs)) = (bi, bj, bs)"
    by (rule Cons.IH) (use Cons.prems in auto)
  then show ?case
    unfolding flm_inner_step [OF j(1,2)] using j(3) by simp
qed

lemma flm_inner_append:
  "(\<And>j. j \<in> set js1 \<Longrightarrow> j < bhi) \<Longrightarrow>
     flm_inner i blo bhi f (js1 @ js2) st = flm_inner i blo bhi f js2 (flm_inner i blo bhi f js1 st)"
proof (induction js1 arbitrary: st)
  case Nil
  show ?case by simp
next
  case (Cons j js)
  obtain nj bi bj bs where st: "st = (nj, bi, bj, bs)"
    by (cases st)
  have j: "j < bhi" using Cons.prems [of j] by simp
  have IH: "flm_inner i blo bhi f (js @ js2) st' = flm_inner i blo bhi f js2 (flm_inner i blo bhi f js st')"
    for st'
    by (rule Cons.IH) (simp add: Cons.prems)
  show ?case
    using j by (simp add: st IH Let_def)
qed

definition diag_inv :: "string \<Rightarrow> nat \<Rightarrow> (nat \<Rightarrow> nat) \<times> match \<Rightarrow> bool" where
  "diag_inv x m st =
     (case st of (f, bi, bj, bs) \<Rightarrow>
        bi = bj \<and> (\<forall>j. f j \<le> diag_run x j) \<and> (\<forall>j. f j \<le> prev_len (diag_run x) m)
        \<and> prev_len f m = prev_len (diag_run x) m \<and> (\<forall>j<m. diag_run x j \<le> bs))"

lemma diag_inv_row:
  assumes inv: "diag_inv x m (f, bi, bj, bs)" and m: "m < length x"
  shows "diag_inv x (Suc m) (flm_row x x 0 (length x) m (f, bi, bj, bs))"
proof (cases "popular x (x ! m)")
  case True
  then have "flm_row x x 0 (length x) m (f, bi, bj, bs) = (\<lambda>j. 0, bi, bj, bs)"
    by (simp add: flm_row_def b2j_def)
  moreover have "diag_run x m = 0"
    using True by (subst diag_run_eq) simp
  ultimately show ?thesis
    using inv by (auto simp: diag_inv_def prev_len_def less_Suc_eq)
next
  case False
  define n where "n = length x"
  define K where "K = (\<lambda>j. prev_len f j + 1)"
  define js1 where "js1 = filter (\<lambda>j. x ! j = x ! m) [0..<m]"
  define js2 where "js2 = filter (\<lambda>j. x ! j = x ! m) [Suc m..<n]"
  have f_d: "\<And>j. f j \<le> diag_run x j" and f_m: "\<And>j. f j \<le> prev_len (diag_run x) m"
    and fm: "prev_len f m = prev_len (diag_run x) m" and d_bs: "\<And>j. j < m \<Longrightarrow> diag_run x j \<le> bs"
    and bij: "bi = bj"
    using inv by (auto simp: diag_inv_def)
  have dm: "diag_run x m = prev_len (diag_run x) m + 1"
    using False by (subst diag_run_eq) simp
  have split: "[0..<n] = [0..<m] @ m # [Suc m..<n]"
    using m unfolding n_def
    by (metis le_add1 le_add_same_cancel1 less_imp_add_positive upt_add_eq_append upt_conv_Cons)
  have js: "b2j x (x ! m) = js1 @ m # js2"
    using False by (simp add: b2j_def js1_def js2_def split n_def [symmetric])
  have in_js: "j \<in> set (b2j x (x ! m)) \<Longrightarrow> j < n \<and> x ! j = x ! m" for j
    using False by (auto simp: b2j_def n_def)
  have K_d: "K j \<le> diag_run x j" if "j \<in> set (b2j x (x ! m))" for j
  proof -
    have "\<not> popular x (x ! j)" using in_js [OF that] False by simp
    then have "diag_run x j = prev_len (diag_run x) j + 1"
      by (subst diag_run_eq) simp
    moreover have "prev_len f j \<le> prev_len (diag_run x) j"
      by (rule prev_len_mono) (rule f_d)
    ultimately show ?thesis by (simp add: K_def)
  qed
  have K_m: "K j \<le> diag_run x m" for j
  proof -
    have "prev_len f j \<le> prev_len (diag_run x) m"
      by (rule prev_len_le) (rule f_m)
    then show ?thesis by (simp add: K_def dm)
  qed
  have Km: "K m = diag_run x m"
    by (simp add: K_def fm dm)
  \<comment> \<open>the columns before the diagonal\<close>
  have s1: "snd (flm_inner m 0 n f js1 (\<lambda>j. 0, bi, bj, bs)) = (bi, bj, bs)"
  proof (rule flm_inner_no_update)
    fix j assume j: "j \<in> set js1"
    then have "j < m" "j \<in> set (b2j x (x ! m))"
      by (auto simp: js1_def js)
    then have "K j \<le> bs"
      using K_d [of j] d_bs [of j] by simp
    with \<open>j < m\<close> m show "0 \<le> j \<and> j < n \<and> prev_len f j + 1 \<le> bs"
      by (simp add: K_def n_def)
  qed
  obtain g1 where st1: "flm_inner m 0 n f js1 (\<lambda>j. 0, bi, bj, bs) = (g1, bi, bj, bs)"
    using s1 by (cases "flm_inner m 0 n f js1 (\<lambda>j. 0, bi, bj, bs)") simp
  \<comment> \<open>the diagonal\<close>
  define best' where "best' = (if bs < K m then (m + 1 - K m, m + 1 - K m, K m) else (bi, bj, bs))"
  obtain ci cj cs where best': "best' = (ci, cj, cs)"
    by (cases best')
  have c: "ci = cj" "K m \<le> cs" "bs \<le> cs"
    using best' bij by (auto simp: best'_def split: if_splits)
  \<comment> \<open>the columns after the diagonal\<close>
  have s2: "snd (flm_inner m 0 n f js2 (g1(m := K m), ci, cj, cs)) = (ci, cj, cs)"
  proof (rule flm_inner_no_update)
    fix j assume j: "j \<in> set js2"
    then have "j < n" by (auto simp: js2_def)
    moreover have "K j \<le> cs"
      using K_m [of j] Km c(2) by simp
    ultimately show "0 \<le> j \<and> j < n \<and> prev_len f j + 1 \<le> cs"
      by (simp add: K_def)
  qed
  have "flm_row x x 0 (length x) m (f, bi, bj, bs)
          = flm_inner m 0 n f js2 (flm_inner m 0 n f (m # []) (flm_inner m 0 n f js1 (\<lambda>j. 0, bi, bj, bs)))"
  proof -
    have "flm_row x x 0 (length x) m (f, bi, bj, bs) = flm_inner m 0 n f (js1 @ [m] @ js2) (\<lambda>j. 0, bi, bj, bs)"
      by (simp add: flm_row_def js n_def)
    also have "\<dots> = flm_inner m 0 n f ([m] @ js2) (flm_inner m 0 n f js1 (\<lambda>j. 0, bi, bj, bs))"
      by (rule flm_inner_append) (auto simp: js1_def n_def intro: less_trans [OF _ m])
    also have "\<dots> = flm_inner m 0 n f js2 (flm_inner m 0 n f [m] (flm_inner m 0 n f js1 (\<lambda>j. 0, bi, bj, bs)))"
      by (rule flm_inner_append) (use m in \<open>simp add: n_def\<close>)
    finally show ?thesis .
  qed
  also have "flm_inner m 0 n f [m] (flm_inner m 0 n f js1 (\<lambda>j. 0, bi, bj, bs)) = (g1(m := K m), best')"
    unfolding st1 K_def best'_def
    using flm_inner_step [of 0 m n m f "[]" g1 bi bj bs] m
    by (simp add: n_def del: flm_inner.simps) simp
  finally have row: "flm_row x x 0 (length x) m (f, bi, bj, bs)
                       = flm_inner m 0 n f js2 (g1(m := K m), ci, cj, cs)"
    by (simp add: best')
  have fst_row: "fst (flm_row x x 0 (length x) m (f, bi, bj, bs))
                   = (\<lambda>j. if j \<in> set (b2j x (x ! m)) then K j else 0)"
  proof -
    have "fst (flm_inner m 0 n f (b2j x (x ! m)) (\<lambda>j. 0, bi, bj, bs))
            = (\<lambda>j. if j \<in> set (b2j x (x ! m)) then K j else 0)"
      unfolding K_def by (rule flm_inner_fst) (use in_js in auto)
    then show ?thesis
      by (simp add: flm_row_def n_def)
  qed
  define f' where "f' = (\<lambda>j. if j \<in> set (b2j x (x ! m)) then K j else 0)"
  have "snd (flm_row x x 0 (length x) m (f, bi, bj, bs)) = (ci, cj, cs)"
    using row s2 by simp
  with fst_row have f': "flm_row x x 0 (length x) m (f, bi, bj, bs) = (f', ci, cj, cs)"
    "f' = (\<lambda>j. if j \<in> set (b2j x (x ! m)) then K j else 0)"
    by (simp_all add: prod_eq_iff f'_def)
  have m_in: "m \<in> set (b2j x (x ! m))"
    by (simp add: js)
  have "\<forall>j. f' j \<le> diag_run x j"
    using K_d by (simp add: f'(2))
  moreover have "\<forall>j. f' j \<le> prev_len (diag_run x) (Suc m)"
    using K_m by (simp add: f'(2) prev_len_def)
  moreover have "prev_len f' (Suc m) = prev_len (diag_run x) (Suc m)"
    using m_in Km by (simp add: f'(2) prev_len_def)
  moreover have "\<forall>j<Suc m. diag_run x j \<le> cs"
    using d_bs c Km by (auto simp: less_Suc_eq intro: order_trans)
  ultimately show ?thesis
    using c(1) by (simp add: f'(1) diag_inv_def)
qed

lemma diag_inv_rows:
  "m \<le> length x \<Longrightarrow>
     diag_inv x m (fold (flm_row x x 0 (length x)) [0..<m] (\<lambda>j. 0, 0, 0, 0))"
proof (induction m)
  case 0
  show ?case by (simp add: diag_inv_def prev_len_def)
next
  case (Suc m)
  obtain f bi bj bs where st: "fold (flm_row x x 0 (length x)) [0..<m] (\<lambda>j. 0, 0, 0, 0) = (f, bi, bj, bs)"
    by (cases "fold (flm_row x x 0 (length x)) [0..<m] (\<lambda>j. 0, 0, 0, 0)")
  with Suc have "diag_inv x m (f, bi, bj, bs)" "m < length x" by simp_all
  from diag_inv_row [OF this] st show ?case by simp
qed

lemma extend_back_diagonal:
  "(\<And>c. want c) \<Longrightarrow> i \<le> length x \<Longrightarrow> extend_back x x 0 0 want (i, i, k) = (0, 0, k + i)"
proof (induction i arbitrary: k)
  case 0
  show ?case by (subst extend_back.simps) simp
next
  case (Suc i)
  have "extend_back x x 0 0 want (Suc i, Suc i, k) = extend_back x x 0 0 want (i, i, k + 1)"
    using Suc.prems by (subst extend_back.simps) simp
  also have "\<dots> = (0, 0, k + 1 + i)"
    using Suc.prems by (intro Suc.IH) simp_all
  finally show ?case by simp
qed

lemma extend_forward_diagonal:
  "(\<And>c. want c) \<Longrightarrow> k \<le> n \<Longrightarrow> extend_forward x x n n want (0, 0, k) = (0, 0, n)"
proof (induction "n - k" arbitrary: k)
  case 0
  then show ?case by (subst extend_forward.simps) simp
next
  case (Suc d)
  then have "k < n" by simp
  then have "extend_forward x x n n want (0, 0, k) = extend_forward x x n n want (0, 0, k + 1)"
    using Suc.prems by (subst extend_forward.simps) simp
  also have "\<dots> = (0, 0, n)"
    using Suc \<open>k < n\<close> by (intro Suc.hyps(1)) simp_all
  finally show ?case .
qed

lemma extend_back_isbjunk: "extend_back a b alo blo isbjunk (i, j, k) = (i, j, k)"
  by (subst extend_back.simps) (simp add: isbjunk_def)

lemma extend_forward_isbjunk: "extend_forward a b ahi bhi isbjunk (i, j, k) = (i, j, k)"
  by (subst extend_forward.simps) (simp add: isbjunk_def)

lemma find_longest_match_same:
  "find_longest_match x x 0 (length x) 0 (length x) = (0, 0, length x)"
proof -
  obtain f bi bj bs where st:
    "fold (flm_row x x 0 (length x)) [0..<length x] (\<lambda>j. 0, 0, 0, 0) = (f, bi, bj, bs)"
    by (cases "fold (flm_row x x 0 (length x)) [0..<length x] (\<lambda>j. 0, 0, 0, 0)")
  have "diag_inv x (length x) (f, bi, bj, bs)"
    using diag_inv_rows [of "length x" x] st by simp
  then have d: "bi = bj" by (simp add: diag_inv_def)
  have "best_ok 0 (length x) 0 (length x) (bi, bj, bs)"
    using flm_rows_ok [of 0 "length x" "length x" x x 0] st by simp
  then have b: "bi + bs \<le> length x" by (simp add: best_ok_def)
  have 1: "extend_back x x 0 0 (\<lambda>c. \<not> isbjunk c) (bi, bj, bs) = (0, 0, bs + bi)"
    unfolding d [symmetric] using b by (intro extend_back_diagonal) (simp_all add: isbjunk_def)
  have 2: "extend_forward x x (length x) (length x) (\<lambda>c. \<not> isbjunk c) (0, 0, bs + bi) = (0, 0, length x)"
    using b by (intro extend_forward_diagonal) (simp_all add: isbjunk_def)
  show ?thesis
    by (simp add: find_longest_match_def st 1 2 extend_back_isbjunk extend_forward_isbjunk)
qed

lemma get_matching_blocks_same:
  "get_matching_blocks x x = (if x = [] then [] else [(0, 0, length x)])"
  by (simp add: get_matching_blocks_def mb_loop.simps find_longest_match_same)

lemma ratio_same: "ratio x x = 1"
  by (simp add: ratio_def get_matching_blocks_same)

subsection \<open>The ratio lies between 0 and 1\<close>

definition block_sizes :: "match list \<Rightarrow> nat" where
  "block_sizes blocks = sum_list (map (\<lambda>(i, j, k). k) blocks)"

definition room_a :: "(nat \<times> nat \<times> nat \<times> nat) list \<Rightarrow> nat" where
  "room_a queue = sum_list (map (\<lambda>(alo, ahi, blo, bhi). ahi - alo) queue)"

definition room_b :: "(nat \<times> nat \<times> nat \<times> nat) list \<Rightarrow> nat" where
  "room_b queue = sum_list (map (\<lambda>(alo, ahi, blo, bhi). bhi - blo) queue)"

lemma mb_loop_sizes:
  "block_sizes (mb_loop a b queue blocks) \<le> block_sizes blocks + room_a queue
   \<and> block_sizes (mb_loop a b queue blocks) \<le> block_sizes blocks + room_b queue"
proof (induction a b queue blocks rule: mb_loop.induct)
  case (1 a b matching_blocks)
  show ?case by (simp add: mb_loop.simps)
next
  case (2 a b alo ahi blo bhi queue matching_blocks)
  obtain i j k where m: "find_longest_match a b alo ahi blo bhi = (i, j, k)"
    by (cases "find_longest_match a b alo ahi blo bhi")
  show ?case
  proof (cases "k = 0")
    case True
    have "mb_loop a b ((alo, ahi, blo, bhi) # queue) matching_blocks = mb_loop a b queue matching_blocks"
      by (simp add: mb_loop.simps m True)
    moreover note "2.IH"(1) [OF m [symmetric] refl True]
    ultimately show ?thesis
      by (simp add: room_a_def room_b_def)
  next
    case False
    define queue' where "queue' =
      (if i + k < ahi \<and> j + k < bhi then [(i + k, ahi, j + k, bhi)] else [])
      @ (if alo < i \<and> blo < j then [(alo, i, blo, j)] else []) @ queue"
    have step: "mb_loop a b ((alo, ahi, blo, bhi) # queue) matching_blocks
                  = mb_loop a b queue' (matching_blocks @ [(i, j, k)])"
      by (simp add: mb_loop.simps m False queue'_def)
    from find_longest_match_a_side [OF m False]
    have bounds: "alo \<le> i" "i + k \<le> ahi" "blo \<le> j" "j + k \<le> bhi"
      by simp_all
    have ra: "k + room_a queue' \<le> room_a ((alo, ahi, blo, bhi) # queue)"
      using bounds by (auto simp: room_a_def queue'_def)
    have rb: "k + room_b queue' \<le> room_b ((alo, ahi, blo, bhi) # queue)"
      using bounds by (auto simp: room_b_def queue'_def)
    have bs: "block_sizes (matching_blocks @ [(i, j, k)]) = block_sizes matching_blocks + k"
      by (simp add: block_sizes_def)
    from "2.IH"(2) [OF m [symmetric] refl False, folded queue'_def]
    show ?thesis
      unfolding step using ra rb bs by linarith
  qed
qed

lemma get_matching_blocks_sizes:
  "block_sizes (get_matching_blocks a b) \<le> length a"
  "block_sizes (get_matching_blocks a b) \<le> length b"
  using mb_loop_sizes [of a b "[(0, length a, 0, length b)]" "[]"]
  by (simp_all add: get_matching_blocks_def block_sizes_def room_a_def room_b_def)

lemma ratio_range: "0 \<le> ratio a b \<and> ratio a b \<le> 1"
proof (cases "length a + length b = 0")
  case True
  then show ?thesis by (simp add: ratio_def)
next
  case False
  define M where "M = block_sizes (get_matching_blocks a b)"
  have "2 * M \<le> length a + length b"
    using get_matching_blocks_sizes [of a b] by (simp add: M_def)
  then have "real (2 * M) \<le> real (length a + length b)"
    by (simp only: of_nat_le_iff)
  moreover from False have "0 < length a + length b"
    by simp
  then have "0 < real (length a + length b)"
    by (simp only: of_nat_0_less_iff)
  ultimately have "real (2 * M) / real (length a + length b) \<le> 1"
    by (simp only: divide_le_eq_1_pos)
  moreover have "ratio a b = real (2 * M) / real (length a + length b)"
    using False by (simp add: ratio_def M_def block_sizes_def)
  ultimately show ?thesis by simp
qed

section \<open>The response extractor (\<open>_parse_json_response\<close> in fusion.py and clustering.py)\<close>

text \<open>
  The two modules hold the same function. Its three patterns, searched with
  \<open>re.DOTALL\<close>: a fenced block labelled \<open>json\<close>, any fenced block, and the text from a
  brace to the last closing brace after it.
\<close>

definition backtick :: char where
  "backtick = CHR 0x60"

definition any_char :: "char \<Rightarrow> bool" where
  "any_char c = True"

definition json_fence_pattern :: rx where
  "json_fence_pattern =
     seqs [Lit ([backtick, backtick, backtick] @ ''json''), Star is_space, Lit [newline],
           Grp (LazyStar any_char), Lit [newline, backtick, backtick, backtick]]"

definition fence_pattern :: rx where
  "fence_pattern =
     seqs [Lit [backtick, backtick, backtick], Star is_space, Lit [newline],
           Grp (LazyStar any_char), Lit [newline, backtick, backtick, backtick]]"

definition brace_group_pattern :: rx where
  "brace_group_pattern = Grp (seqs [Lit ''{'', Star any_char, Lit ''}''])"

text \<open>
  The loop over the patterns: a pattern that matches and whose group decodes ends the
  function; a \<open>JSONDecodeError\<close> moves on to the next pattern.
\<close>

fun try_patterns :: "(string \<Rightarrow> json option) \<Rightarrow> rx list \<Rightarrow> string \<Rightarrow> json option" where
  "try_patterns loads [] text = None"
| "try_patterns loads (pattern # patterns) text =
     (case re_search pattern text of
        Some (whole, Some group1) \<Rightarrow>
          (case loads (strip group1) of
             Some v \<Rightarrow> Some v
           | None \<Rightarrow> try_patterns loads patterns text)
      | _ \<Rightarrow> try_patterns loads patterns text)"

text \<open>
  \<open>text[start : end + 1]\<close> for \<open>start = text.find("{")\<close> and \<open>end = text.rfind("}")\<close>,
  when \<open>start >= 0 and end > start\<close>.
\<close>

definition brace_slice :: "string \<Rightarrow> string option" where
  "brace_slice text =
     (if CHR ''{'' \<in> set text \<and> CHR ''}'' \<in> set text
      then (let start = length (takeWhile (\<lambda>c. c \<noteq> CHR ''{'') text);
                end = length text - 1 - length (takeWhile (\<lambda>c. c \<noteq> CHR ''}'') (rev text))
            in if start < end then Some (take (end + 1 - start) (drop start text)) else None)
      else None)"

text \<open>
  \<open>_parse_json_response\<close>, with the decoder \<open>json.loads\<close> as its first argument. What it
  returns is whatever value the decoder produced; the type of the value is not checked.
\<close>

definition parse_json_response :: "(string \<Rightarrow> json option) \<Rightarrow> string \<Rightarrow> json" where
  "parse_json_response loads text =
     (case try_patterns loads [json_fence_pattern, fence_pattern, brace_group_pattern] text of
        Some v \<Rightarrow> v
      | None \<Rightarrow>
          (case loads (strip text) of
             Some v \<Rightarrow> v
           | None \<Rightarrow>
               (case brace_slice text of
                  Some s \<Rightarrow> (case loads s of Some v \<Rightarrow> v | None \<Rightarrow> JObj [])
                | None \<Rightarrow> JObj [])))"

subsection \<open>A decoder for closed examples\<close>

text \<open>
  \<open>json.loads\<close> restricted to the JSON texts made of objects, arrays, integers, strings
  without escapes, \<open>true\<close>, \<open>false\<close> and \<open>null\<close>. On these it returns what Python
  returns (for an object without repeated keys); on every other text it answers \<open>None\<close>,
  also where Python would decode a number with a fraction or an exponent or a string with
  an escape. It is used to evaluate examples only; the general statements take the
  decoder as a parameter. The first argument bounds the number of nested calls.
\<close>

definition json_ws :: "char \<Rightarrow> bool" where
  "json_ws c = (c = CHR '' '' \<or> c = tab \<or> c = newline \<or> c = CHR 0x0D)"

definition is_digit :: "char \<Rightarrow> bool" where
  "is_digit c = (48 \<le> code_point c \<and> code_point c \<le> 57)"

definition digits_value :: "string \<Rightarrow> int" where
  "digits_value ds = foldl (\<lambda>acc c. 10 * acc + (int (code_point c) - 48)) 0 ds"

text \<open>An integer literal: an optional minus, then 0 or digits that do not start with 0.\<close>

definition decode_int :: "string \<Rightarrow> (json \<times> string) option" where
  "decode_int s =
     (let neg = (take 1 s = ''-'');
          body = (if neg then drop 1 s else s);
          ds = takeWhile is_digit body;
          rest = dropWhile is_digit body
      in if ds = [] \<or> (1 < length ds \<and> hd ds = CHR ''0'') then None
         else if rest \<noteq> [] \<and> hd rest \<in> set ''.eE'' then None
         else Some (JInt (if neg then - digits_value ds else digits_value ds), rest))"

text \<open>A string body up to the closing quote; escapes and control characters are refused.\<close>

fun decode_string :: "string \<Rightarrow> string \<Rightarrow> (string \<times> string) option" where
  "decode_string acc [] = None"
| "decode_string acc (c # cs) =
     (if c = CHR 0x22 then Some (rev acc, cs)
      else if c = CHR 0x5C \<or> code_point c < 32 then None
      else decode_string (c # acc) cs)"

text \<open>What a value starts with, after white space.\<close>

datatype value_start = OpenObject string | OpenArray string | Scalar string

definition classify :: "string \<Rightarrow> value_start" where
  "classify s =
     (let s1 = dropWhile json_ws s
      in if take 1 s1 = ''{'' then OpenObject (dropWhile json_ws (drop 1 s1))
         else if take 1 s1 = ''['' then OpenArray (dropWhile json_ws (drop 1 s1))
         else Scalar s1)"

definition decode_scalar :: "string \<Rightarrow> (json \<times> string) option" where
  "decode_scalar s1 =
     (if take 1 s1 = [CHR 0x22] then
        (case decode_string [] (drop 1 s1) of
           Some (str, rest) \<Rightarrow> Some (JStr str, rest)
         | None \<Rightarrow> None)
      else if take 4 s1 = ''true'' then Some (JBool True, drop 4 s1)
      else if take 5 s1 = ''false'' then Some (JBool False, drop 5 s1)
      else if take 4 s1 = ''null'' then Some (JNull, drop 4 s1)
      else decode_int s1)"

text \<open>What follows an element: a comma, the closing bracket, or neither.\<close>

datatype separator = Comma string | Close string | NoSeparator

definition separator_after :: "char \<Rightarrow> string \<Rightarrow> separator" where
  "separator_after closing s =
     (let s1 = dropWhile json_ws s
      in if take 1 s1 = '','' then Comma (drop 1 s1)
         else if take 1 s1 = [closing] then Close (drop 1 s1)
         else NoSeparator)"

text \<open>The key of an object member, up to and including the colon.\<close>

definition decode_key :: "string \<Rightarrow> (string \<times> string) option" where
  "decode_key s =
     (let s1 = dropWhile json_ws s
      in if take 1 s1 = [CHR 0x22] then
           (case decode_string [] (drop 1 s1) of
              None \<Rightarrow> None
            | Some (key, rest) \<Rightarrow>
                (let r1 = dropWhile json_ws rest
                 in if take 1 r1 = '':'' then Some (key, drop 1 r1) else None))
         else None)"

fun decode_value :: "nat \<Rightarrow> string \<Rightarrow> (json \<times> string) option"
  and decode_elements :: "nat \<Rightarrow> json list \<Rightarrow> string \<Rightarrow> (json \<times> string) option"
  and decode_members :: "nat \<Rightarrow> (string \<times> json) list \<Rightarrow> string \<Rightarrow> (json \<times> string) option" where
  "decode_value 0 s = None"
| "decode_value (Suc n) s =
     (case classify s of
        OpenObject r \<Rightarrow> if take 1 r = ''}'' then Some (JObj [], drop 1 r) else decode_members n [] r
      | OpenArray r \<Rightarrow> if take 1 r = '']'' then Some (JArr [], drop 1 r) else decode_elements n [] r
      | Scalar s1 \<Rightarrow> decode_scalar s1)"
| "decode_elements 0 acc s = None"
| "decode_elements (Suc n) acc s =
     (case decode_value n s of
        None \<Rightarrow> None
      | Some (v, rest) \<Rightarrow>
          (case separator_after (CHR '']'') rest of
             Comma r \<Rightarrow> decode_elements n (acc @ [v]) r
           | Close r \<Rightarrow> Some (JArr (acc @ [v]), r)
           | NoSeparator \<Rightarrow> None))"
| "decode_members 0 acc s = None"
| "decode_members (Suc n) acc s =
     (case decode_key s of
        None \<Rightarrow> None
      | Some (key, r) \<Rightarrow>
          (case decode_value n r of
             None \<Rightarrow> None
           | Some (v, rest) \<Rightarrow>
               (case separator_after (CHR ''}'') rest of
                  Comma r' \<Rightarrow> decode_members n (acc @ [(key, v)]) r'
                | Close r' \<Rightarrow> Some (JObj (acc @ [(key, v)]), r')
                | NoSeparator \<Rightarrow> None)))"

definition json_decode :: "string \<Rightarrow> json option" where
  "json_decode s =
     (case decode_value (Suc (length s)) s of
        Some (v, rest) \<Rightarrow> if dropWhile json_ws rest = [] then Some v else None
      | None \<Rightarrow> None)"

section \<open>Knowledge fusion (src/src/fusion.py, class KnowledgeFusionSkill)\<close>

text \<open>
  The dataclasses of the module. \<open>title\<close> of a merged point and \<open>best_title\<close> and
  \<open>reason\<close> of a group may come straight from a decoded reply and are JSON values.
  \<open>sources\<close> is built with \<open>list(set(...))\<close>, whose order Python leaves open; the model
  keeps the set.
\<close>

record MergedKnowledge =
  m_title :: json
  m_content :: string
  sources :: "string set"
  m_video_markers :: "VideoMarker list"
  examples :: "string list"
  confidence :: real
  merged_from :: nat

record DuplicateGroup =
  best_title :: json
  indices :: "nat list"
  similarity_scores :: "real list"
  reason :: json

subsection \<open>The similarity scorer and the prefilter\<close>

text \<open>
  \<open>_calculate_similarity\<close>. Floating-point numbers are modelled by the reals they denote.
\<close>

definition calculate_similarity :: "string KnowledgePoint \<Rightarrow> string KnowledgePoint \<Rightarrow> real" where
  "calculate_similarity p1 p2 =
     (let title_sim = ratio (py_lower (title p1)) (py_lower (title p2));
          content_sim = ratio (py_lower (take 200 (content p1))) (py_lower (take 200 (content p2)))
      in title_sim * 0.6 + content_sim * 0.4)"

text \<open>
  \<open>_find_similar_candidates\<close>, first part: the matrix, filled by the two nested loops
  (\<open>similarity_matrix[i][j] = sim\<close> and \<open>similarity_matrix[j][i] = sim\<close> for \<open>i < j\<close>).
\<close>

definition set_entry :: "real list list \<Rightarrow> nat \<Rightarrow> nat \<Rightarrow> real \<Rightarrow> real list list" where
  "set_entry M i j v = M[i := (M ! i)[j := v]]"

definition fill_pair :: "string KnowledgePoint list \<Rightarrow> nat \<Rightarrow> nat \<Rightarrow> real list list \<Rightarrow> real list list" where
  "fill_pair points i j M =
     (let sim = calculate_similarity (points ! i) (points ! j)
      in set_entry (set_entry M i j sim) j i sim)"

definition similarity_matrix :: "string KnowledgePoint list \<Rightarrow> real list list" where
  "similarity_matrix points =
     (let n = length points
      in fold (\<lambda>i M. fold (fill_pair points i) [i + 1..<n] M) [0..<n] (replicate n (replicate n 0)))"

text \<open>
  Second part: the sweep. \<open>collect_similar\<close> is the inner loop over \<open>j\<close>, with the group
  and the list \<open>visited\<close> it updates; \<open>sweep\<close> is the outer loop over \<open>i\<close>, with \<open>visited\<close>
  and the groups found so far.
\<close>

fun collect_similar ::
  "real list list \<Rightarrow> real \<Rightarrow> nat \<Rightarrow> nat list \<Rightarrow> nat list \<times> bool list \<Rightarrow> nat list \<times> bool list" where
  "collect_similar M threshold i [] st = st"
| "collect_similar M threshold i (j # js) (grp, visited) =
     (if \<not> visited ! j \<and> threshold \<le> M ! i ! j
      then collect_similar M threshold i js (grp @ [j], visited[j := True])
      else collect_similar M threshold i js (grp, visited))"

fun sweep ::
  "real list list \<Rightarrow> real \<Rightarrow> nat \<Rightarrow> nat list \<Rightarrow> bool list \<times> nat list list \<Rightarrow> bool list \<times> nat list list" where
  "sweep M threshold n [] st = st"
| "sweep M threshold n (i # is) (visited, groups) =
     (if visited ! i then sweep M threshold n is (visited, groups)
      else (case collect_similar M threshold i [i + 1..<n] ([i], visited[i := True]) of
              (grp, visited') \<Rightarrow>
                sweep M threshold n is
                  (visited', if 1 < length grp then groups @ [grp] else groups)))"

text \<open>\<open>threshold\<close> is \<open>self.similarity_threshold\<close>, 0.75 unless the constructor is given another.\<close>

definition find_similar_candidates :: "real \<Rightarrow> string KnowledgePoint list \<Rightarrow> nat list list" where
  "find_similar_candidates threshold points =
     (let n = length points
      in snd (sweep (similarity_matrix points) threshold n [0..<n] (replicate n False, [])))"

text \<open>
  The prefilter as claim C6 words it: the indices are swept in increasing order; an
  index already visited is skipped; for an unvisited index \<open>i\<close> every unvisited \<open>j > i\<close>
  whose similarity to \<open>i\<close> reaches the threshold joins the group of \<open>i\<close>, and \<open>i\<close> and the
  members become visited; a group of \<open>i\<close> alone is discarded.
\<close>

fun greedy_groups :: "(nat \<Rightarrow> nat \<Rightarrow> real) \<Rightarrow> real \<Rightarrow> nat \<Rightarrow> nat list \<Rightarrow> nat set \<Rightarrow> nat list list" where
  "greedy_groups sim threshold n [] visited = []"
| "greedy_groups sim threshold n (i # is) visited =
     (if i \<in> visited then greedy_groups sim threshold n is visited
      else (let members = filter (\<lambda>j. j \<notin> visited \<and> threshold \<le> sim i j) [i + 1..<n]
            in (if members = [] then [] else [i # members])
               @ greedy_groups sim threshold n is (visited \<union> {i} \<union> set members)))"

subsection \<open>Confirmation by the generative service\<close>

text \<open>Truth of a value in a condition, and the comparison \<open>value > 0.8\<close>.\<close>

fun py_truthy :: "json \<Rightarrow> bool" where
  "py_truthy JNull = False"
| "py_truthy (JBool b) = b"
| "py_truthy (JInt i) = (i \<noteq> 0)"
| "py_truthy (JReal r) = (r \<noteq> 0)"
| "py_truthy (JStr s) = (s \<noteq> [])"
| "py_truthy (JArr xs) = (xs \<noteq> [])"
| "py_truthy (JObj kvs) = (kvs \<noteq> [])"

fun py_greater :: "json \<Rightarrow> real \<Rightarrow> error + bool" where
  "py_greater (JBool b) x = Inr ((if b then 1 else 0) > x)"
| "py_greater (JInt i) x = Inr (real_of_int i > x)"
| "py_greater (JReal r) x = Inr (r > x)"
| "py_greater v x = Inl TypeError"

text \<open>\<open>[points[i] for i in group_indices]\<close>: an index out of range raises \<open>IndexError\<close>.\<close>

datatype lookup_error = IndexError

fun lookup_points :: "'a list \<Rightarrow> nat list \<Rightarrow> lookup_error + 'a list" where
  "lookup_points points [] = Inr []"
| "lookup_points points (i # is) =
     (if i < length points
      then (case lookup_points points is of Inl e \<Rightarrow> Inl e | Inr ps \<Rightarrow> Inr (points ! i # ps))
      else Inl IndexError)"

text \<open>
  The statements of the \<open>try\<close> block after the reply is decoded: \<open>Inr []\<close> when the group is
  not confirmed, \<open>Inr [g]\<close> when it is, \<open>Inl\<close> for an exception.
\<close>

definition confirm_reply :: "json \<Rightarrow> string \<Rightarrow> nat list \<Rightarrow> error + DuplicateGroup list" where
  "confirm_reply data first_title group_indices =
     (case py_get data ''is_duplicate'' (JBool False) of
        Inl e \<Rightarrow> Inl e
      | Inr dup \<Rightarrow>
          if \<not> py_truthy dup then Inr []
          else (case py_get data ''confidence'' (JInt 0) of
                  Inl e \<Rightarrow> Inl e
                | Inr conf \<Rightarrow>
                    (case py_greater conf 0.8 of
                       Inl e \<Rightarrow> Inl e
                     | Inr False \<Rightarrow> Inr []
                     | Inr True \<Rightarrow>
                         (case py_get data ''best_title'' (JStr first_title) of
                            Inl e \<Rightarrow> Inl e
                          | Inr bt \<Rightarrow>
                              (case py_get data ''reason'' (JStr []) of
                                 Inl e \<Rightarrow> Inl e
                               | Inr rs \<Rightarrow>
                                   Inr [\<lparr>best_title = bt, indices = group_indices,
                                         similarity_scores = replicate (length group_indices) 1,
                                         reason = rs\<rparr>])))))"

text \<open>
  One round of the loop of \<open>_confirm_duplicates\<close> for a group of two or more indices. A
  failure inside the \<open>try\<close> block confirms the group under the title of its first member
  (the reason is a CJK text in the source, given in English here).
\<close>

definition confirm_group ::
  "env \<Rightarrow> string KnowledgePoint list \<Rightarrow> nat list \<Rightarrow> world \<Rightarrow> (lookup_error + DuplicateGroup list) \<times> world" where
  "confirm_group E points group_indices w =
     (case lookup_points points group_indices of
        Inl e \<Rightarrow> (Inl e, w)
      | Inr group_points \<Rightarrow>
          (case generate E
                  (ConfirmPrompt (map (\<lambda>(i, p). (i, title p, take 100 (content p)))
                                      (zip group_indices group_points))) w of
             (r, w') \<Rightarrow>
               (case (case r of
                        Inl e \<Rightarrow> Inl e
                      | Inr result \<Rightarrow>
                          confirm_reply (parse_json_response (json_loads E) result)
                            (title (hd group_points)) group_indices) of
                  Inr gs \<Rightarrow> (Inr gs, w')
                | Inl e \<Rightarrow>
                    (Inr [\<lparr>best_title = JStr (title (hd group_points)), indices = group_indices,
                           similarity_scores = replicate (length group_indices) 1,
                           reason = JStr ''automatic merge (confirmation failed)''\<rparr>],
                     w'))))"

fun confirm_duplicates ::
  "env \<Rightarrow> string KnowledgePoint list \<Rightarrow> nat list list \<Rightarrow> world
     \<Rightarrow> (lookup_error + DuplicateGroup list) \<times> world" where
  "confirm_duplicates E points [] w = (Inr [], w)"
| "confirm_duplicates E points (group_indices # rest) w =
     (if length group_indices < 2 then confirm_duplicates E points rest w
      else (case confirm_group E points group_indices w of
              (Inl e, w') \<Rightarrow> (Inl e, w')
            | (Inr gs, w') \<Rightarrow>
                (case confirm_duplicates E points rest w' of
                   (Inl e, w'') \<Rightarrow> (Inl e, w'')
                 | (Inr confirmed, w'') \<Rightarrow> (Inr (gs @ confirmed), w''))))"

subsection \<open>Merging\<close>

text \<open>\<open>str.split("\n")\<close>, the test \<open>kw in line\<close> and \<open>sep.join(parts)\<close>.\<close>

fun split_on :: "char \<Rightarrow> string \<Rightarrow> string list" where
  "split_on c [] = [[]]"
| "split_on c (x # xs) =
     (if x = c then [] # split_on c xs
      else (case split_on c xs of l # ls \<Rightarrow> (x # l) # ls | [] \<Rightarrow> [[x]]))"

fun contains :: "string \<Rightarrow> string \<Rightarrow> bool" where
  "contains kw [] = (kw = [])"
| "contains kw (x # xs) = (take (length kw) (x # xs) = kw \<or> contains kw xs)"

fun join :: "string \<Rightarrow> string list \<Rightarrow> string" where
  "join sep [] = []"
| "join sep [s] = s"
| "join sep (s # ss) = s @ sep @ join sep ss"

text \<open>
  \<open>_extract_examples\<close>. Of its six keywords four are CJK words; the two that modelled
  text can hold are kept.
\<close>

definition example_line :: "string \<Rightarrow> bool" where
  "example_line line =
     ((contains ''example'' line \<or> contains ''Example'' line)
      \<and> 20 < length line \<and> length line < 500)"

definition extract_examples :: "string KnowledgePoint list \<Rightarrow> string list" where
  "extract_examples points =
     take 3 (concat (map (\<lambda>p. map strip (filter example_line (split_on newline (content p)))) points))"

text \<open>\<open>_deduplicate_markers\<close>, with its set \<open>seen\<close> of keys.\<close>

fun unique_markers :: "VideoMarker list \<Rightarrow> string set \<Rightarrow> VideoMarker list" where
  "unique_markers [] seen = []"
| "unique_markers (m # ms) seen =
     (let key = marker_time m @ ''-'' @ take 30 (marker_description m)
      in if key \<in> seen then unique_markers ms seen else m # unique_markers ms (insert key seen))"

definition deduplicate_markers :: "VideoMarker list \<Rightarrow> VideoMarker list" where
  "deduplicate_markers markers = take 5 (unique_markers markers {})"

text \<open>
  \<open>_clean_merged_content\<close>: its three prefixes are CJK phrases, which modelled text does
  not hold, so only the final \<open>strip\<close> acts.
\<close>

definition clean_merged_content :: "string \<Rightarrow> string" where
  "clean_merged_content c = strip c"

definition to_merged :: "string KnowledgePoint \<Rightarrow> MergedKnowledge" where
  "to_merged point =
     \<lparr>m_title = JStr (title point), m_content = content point, sources = {source_file point},
      m_video_markers = video_markers point, examples = extract_examples [point],
      confidence = 1, merged_from = 1\<rparr>"

text \<open>\<open>_merge_group\<close>: one call; when it fails the contents of the first three members are joined.\<close>

definition merge_group ::
  "env \<Rightarrow> string KnowledgePoint list \<Rightarrow> json \<Rightarrow> world \<Rightarrow> MergedKnowledge \<times> world" where
  "merge_group E points title' w =
     (if length points = 1 then (to_merged (hd points), w)
      else (case generate E
                   (MergePrompt (length points)
                      (map (\<lambda>p. (title p, take 1000 (content p))) (take 5 points))) w of
              (r, w') \<Rightarrow>
                (\<lparr>m_title = title',
                  m_content =
                    (case r of
                       Inr reply \<Rightarrow> clean_merged_content reply
                     | Inl e \<Rightarrow> join [newline, newline] (map content (take 3 points))),
                  sources = set (map source_file points),
                  m_video_markers = deduplicate_markers (concat (map video_markers points)),
                  examples = extract_examples points,
                  confidence = min 1 (0.7 + real (length points) * 0.05),
                  merged_from = length points\<rparr>,
                 w')))"

text \<open>
  \<open>_merge_all_groups\<close>: the loop over the confirmed groups, with the list \<open>merged\<close> and the
  set \<open>used_indices\<close>, and then the pass over the points that no group used.
\<close>

fun merge_groups_loop ::
  "env \<Rightarrow> string KnowledgePoint list \<Rightarrow> DuplicateGroup list \<Rightarrow> MergedKnowledge list \<times> nat set
     \<Rightarrow> world \<Rightarrow> (MergedKnowledge list \<times> nat set) \<times> world" where
  "merge_groups_loop E points [] st w = (st, w)"
| "merge_groups_loop E points (grp # groups) (merged, used_indices) w =
     (let group_points = map (\<lambda>i. points ! i) (filter (\<lambda>i. i < length points) (indices grp))
      in if 1 < length group_points then
           (case merge_group E group_points (best_title grp) w of
              (merged_point, w') \<Rightarrow>
                merge_groups_loop E points groups
                  (merged @ [merged_point], used_indices \<union> set (indices grp)) w')
         else if length group_points = 1 then
           merge_groups_loop E points groups
             (merged @ [to_merged (hd group_points)], insert (hd (indices grp)) used_indices) w
         else merge_groups_loop E points groups (merged, used_indices) w)"

definition merge_all_groups ::
  "env \<Rightarrow> string KnowledgePoint list \<Rightarrow> DuplicateGroup list \<Rightarrow> world \<Rightarrow> MergedKnowledge list \<times> world" where
  "merge_all_groups E points confirmed_groups w =
     (case merge_groups_loop E points confirmed_groups ([], {}) w of
        ((merged, used_indices), w') \<Rightarrow>
          (merged @ map (\<lambda>ip. to_merged (snd ip))
                      (filter (\<lambda>ip. fst ip \<notin> used_indices) (enumerate 0 points)),
           w'))"

text \<open>\<open>merge_duplicates\<close>, the three phases.\<close>

definition merge_duplicates ::
  "env \<Rightarrow> real \<Rightarrow> string KnowledgePoint list \<Rightarrow> world \<Rightarrow> (lookup_error + MergedKnowledge list) \<times> world" where
  "merge_duplicates E threshold points w =
     (if points = [] then (Inr [], w)
      else if length points = 1 then (Inr [to_merged (hd points)], w)
      else (case confirm_duplicates E points (find_similar_candidates threshold points) w of
              (Inl e, w') \<Rightarrow> (Inl e, w')
            | (Inr confirmed_groups, w') \<Rightarrow>
                (case merge_all_groups E points confirmed_groups w' of
                   (merged, w'') \<Rightarrow> (Inr merged, w''))))"

subsection \<open>The prefilter is the greedy sweep\<close>

definition square :: "nat \<Rightarrow> real list list \<Rightarrow> bool" where
  "square n M = (length M = n \<and> list_all (\<lambda>row. length row = n) M)"

lemma square_row: "square n M \<Longrightarrow> a < n \<Longrightarrow> length (M ! a) = n"
  by (simp add: square_def list_all_length)

lemma square_set_entry:
  assumes "square n M"
  shows "square n (set_entry M i j v)"
proof -
  have "length (M[i := (M ! i)[j := v]] ! a) = n" if "a < n" for a
  proof (cases "a = i")
    case True
    with that assms show ?thesis
      by (simp add: square_def list_all_length)
  next
    case False
    with that assms show ?thesis
      by (simp add: square_def list_all_length)
  qed
  with assms show ?thesis
    by (simp add: square_def set_entry_def list_all_length)
qed

lemma set_entry_nth:
  assumes "square n M" "i < n" "j < n" "a < n"
  shows "set_entry M i j v ! a ! b = (if a = i \<and> b = j then v else M ! a ! b)"
proof (cases "a = i")
  case True
  with assms have "set_entry M i j v ! a = (M ! i)[j := v]" "j < length (M ! i)"
    by (simp_all add: set_entry_def square_def list_all_length)
  with True show ?thesis
    by (cases "b = j") simp_all
next
  case False
  then have "set_entry M i j v ! a = M ! a"
    by (simp add: set_entry_def)
  with False show ?thesis by simp
qed

lemma square_fill_pair: "square n M \<Longrightarrow> square n (fill_pair points i j M)"
  by (simp add: fill_pair_def Let_def square_set_entry)

lemma fill_pair_nth:
  assumes "square n M" "i < n" "j < n" "a < n"
  shows "fill_pair points i j M ! a ! b =
           (if (a = i \<and> b = j) \<or> (a = j \<and> b = i)
            then calculate_similarity (points ! i) (points ! j) else M ! a ! b)"
proof -
  define v where "v = calculate_similarity (points ! i) (points ! j)"
  have sq: "square n (set_entry M i j v)"
    using assms(1) by (rule square_set_entry)
  have e1: "set_entry (set_entry M i j v) j i v ! a ! b
          = (if a = j \<and> b = i then v else set_entry M i j v ! a ! b)"
    by (rule set_entry_nth [OF sq assms(3) assms(2) assms(4)])
  have e2: "set_entry M i j v ! a ! b = (if a = i \<and> b = j then v else M ! a ! b)"
    by (rule set_entry_nth [OF assms])
  have "set_entry (set_entry M i j v) j i v ! a ! b
                  = (if (a = i \<and> b = j) \<or> (a = j \<and> b = i) then v else M ! a ! b)"
    apply (subst e1)
    apply (subst e2)
    apply (simp only: split: if_splits)
    apply blast
    done
  then show ?thesis
    unfolding fill_pair_def Let_def v_def .
qed

lemma fill_row_nth:
  assumes "square n M" "i < n" "\<And>j. j \<in> set js \<Longrightarrow> j < n" "a < n"
  shows "square n (fold (fill_pair points i) js M)
         \<and> fold (fill_pair points i) js M ! a ! b =
             (if a = i \<and> b \<in> set js then calculate_similarity (points ! i) (points ! b)
              else if b = i \<and> a \<in> set js then calculate_similarity (points ! i) (points ! a)
              else M ! a ! b)"
  using assms(1,3)
proof (induction js arbitrary: M)
  case Nil
  then show ?case by simp
next
  case (Cons j js)
  have j: "j < n" using Cons.prems(2) [of j] by simp
  have sq: "square n (fill_pair points i j M)"
    using Cons.prems(1) by (rule square_fill_pair)
  have IH: "square n (fold (fill_pair points i) js (fill_pair points i j M))
         \<and> fold (fill_pair points i) js (fill_pair points i j M) ! a ! b =
             (if a = i \<and> b \<in> set js then calculate_similarity (points ! i) (points ! b)
              else if b = i \<and> a \<in> set js then calculate_similarity (points ! i) (points ! a)
              else fill_pair points i j M ! a ! b)"
    by (rule Cons.IH [OF sq]) (simp add: Cons.prems(2))
  have fp: "fill_pair points i j M ! a ! b =
           (if (a = i \<and> b = j) \<or> (a = j \<and> b = i)
            then calculate_similarity (points ! i) (points ! j) else M ! a ! b)"
    by (rule fill_pair_nth [OF Cons.prems(1) assms(2) j assms(4)])
  have "fold (fill_pair points i) (j # js) M ! a ! b =
             (if a = i \<and> b \<in> set (j # js) then calculate_similarity (points ! i) (points ! b)
              else if b = i \<and> a \<in> set (j # js) then calculate_similarity (points ! i) (points ! a)
              else M ! a ! b)"
    unfolding fold_simps IH [THEN conjunct2] fp by auto
  with IH show ?case by simp
qed

lemma fill_rows_nth:
  assumes "square n M" "\<And>i. i \<in> set rows \<Longrightarrow> i < n" "a < n" "b < n"
  shows "square n (fold (\<lambda>i M. fold (fill_pair points i) [i + 1..<n] M) rows M)
         \<and> fold (\<lambda>i M. fold (fill_pair points i) [i + 1..<n] M) rows M ! a ! b =
             (if a \<in> set rows \<and> a < b then calculate_similarity (points ! a) (points ! b)
              else if b \<in> set rows \<and> b < a then calculate_similarity (points ! b) (points ! a)
              else M ! a ! b)"
  using assms(1,2)
proof (induction rows arbitrary: M)
  case Nil
  then show ?case by simp
next
  case (Cons i rows)
  have i: "i < n" using Cons.prems(2) [of i] by simp
  define M' where "M' = fold (fill_pair points i) [i + 1..<n] M"
  have row: "square n M'"
    "M' ! a ! b =
       (if a = i \<and> b \<in> set [i + 1..<n] then calculate_similarity (points ! i) (points ! b)
        else if b = i \<and> a \<in> set [i + 1..<n] then calculate_similarity (points ! i) (points ! a)
        else M ! a ! b)"
    unfolding M'_def using fill_row_nth [OF Cons.prems(1) i _ assms(3), of "[i + 1..<n]" points b]
    by simp_all
  have IH: "square n (fold (\<lambda>i M. fold (fill_pair points i) [i + 1..<n] M) rows M')
         \<and> fold (\<lambda>i M. fold (fill_pair points i) [i + 1..<n] M) rows M' ! a ! b =
             (if a \<in> set rows \<and> a < b then calculate_similarity (points ! a) (points ! b)
              else if b \<in> set rows \<and> b < a then calculate_similarity (points ! b) (points ! a)
              else M' ! a ! b)"
    by (rule Cons.IH [OF row(1)]) (simp add: Cons.prems(2))
  have "fold (\<lambda>i M. fold (fill_pair points i) [i + 1..<n] M) (i # rows) M ! a ! b =
             (if a \<in> set (i # rows) \<and> a < b then calculate_similarity (points ! a) (points ! b)
              else if b \<in> set (i # rows) \<and> b < a then calculate_similarity (points ! b) (points ! a)
              else M ! a ! b)"
    unfolding fold_simps M'_def [symmetric] IH [THEN conjunct2] row(2)
    using assms(3,4) by auto
  with IH show ?case by (simp add: M'_def)
qed

lemma similarity_matrix_entry:
  assumes "i < j" "j < length points"
  shows "similarity_matrix points ! i ! j = calculate_similarity (points ! i) (points ! j)"
proof -
  define n where "n = length points"
  have sq: "square n (replicate n (replicate n 0))"
    by (simp add: square_def list_all_length)
  have "i < n" "j < n" using assms by (simp_all add: n_def)
  from fill_rows_nth [OF sq _ this, of "[0..<n]" points] assms
  show ?thesis
    by (simp add: similarity_matrix_def n_def [symmetric] Let_def)
qed

subsection \<open>The sweep\<close>

definition vis_set :: "bool list \<Rightarrow> nat set" where
  "vis_set visited = {k. k < length visited \<and> visited ! k}"

lemma collect_similar_eq:
  assumes "distinct js" "\<And>j. j \<in> set js \<Longrightarrow> j < length visited"
  shows "fst (collect_similar M threshold i js (grp, visited))
           = grp @ filter (\<lambda>j. \<not> visited ! j \<and> threshold \<le> M ! i ! j) js
         \<and> length (snd (collect_similar M threshold i js (grp, visited))) = length visited
         \<and> vis_set (snd (collect_similar M threshold i js (grp, visited)))
             = vis_set visited \<union> set (filter (\<lambda>j. \<not> visited ! j \<and> threshold \<le> M ! i ! j) js)"
  using assms
proof (induction js arbitrary: grp visited)
  case Nil
  show ?case by simp
next
  case (Cons j js)
  have j: "j < length visited" "j \<notin> set js" "distinct js"
    using Cons.prems by auto
  have rest: "\<And>k. k \<in> set js \<Longrightarrow> k < length visited"
    using Cons.prems(2) by simp
  show ?case
  proof (cases "\<not> visited ! j \<and> threshold \<le> M ! i ! j")
    case True
    define visited' where "visited' = visited[j := True]"
    have same: "filter (\<lambda>k. \<not> visited' ! k \<and> threshold \<le> M ! i ! k) js
                  = filter (\<lambda>k. \<not> visited ! k \<and> threshold \<le> M ! i ! k) js"
    proof (rule filter_cong [OF refl])
      fix k assume "k \<in> set js"
      with j(2) have "k \<noteq> j" by auto
      then show "(\<not> visited' ! k \<and> threshold \<le> M ! i ! k) = (\<not> visited ! k \<and> threshold \<le> M ! i ! k)"
        by (simp add: visited'_def)
    qed
    have v: "vis_set visited' = insert j (vis_set visited)"
      using j(1) by (auto simp: vis_set_def visited'_def nth_list_update)
    have IH: "fst (collect_similar M threshold i js (grp @ [j], visited'))
                = (grp @ [j]) @ filter (\<lambda>j. \<not> visited' ! j \<and> threshold \<le> M ! i ! j) js
              \<and> length (snd (collect_similar M threshold i js (grp @ [j], visited'))) = length visited'
              \<and> vis_set (snd (collect_similar M threshold i js (grp @ [j], visited')))
                  = vis_set visited' \<union> set (filter (\<lambda>j. \<not> visited' ! j \<and> threshold \<le> M ! i ! j) js)"
      by (rule Cons.IH [OF j(3)]) (simp add: visited'_def rest)
    show ?thesis
      using True IH unfolding same v by (simp add: visited'_def)
  next
    case False
    have IH: "fst (collect_similar M threshold i js (grp, visited))
                = grp @ filter (\<lambda>j. \<not> visited ! j \<and> threshold \<le> M ! i ! j) js
              \<and> length (snd (collect_similar M threshold i js (grp, visited))) = length visited
              \<and> vis_set (snd (collect_similar M threshold i js (grp, visited)))
                  = vis_set visited \<union> set (filter (\<lambda>j. \<not> visited ! j \<and> threshold \<le> M ! i ! j) js)"
      by (rule Cons.IH [OF j(3)]) (simp add: rest)
    show ?thesis
      using False IH by auto
  qed
qed

lemma sweep_eq_greedy_groups:
  assumes "length visited = n" "\<And>i. i \<in> set rows \<Longrightarrow> i < n"
    and M: "\<And>i j. i < j \<Longrightarrow> j < n \<Longrightarrow> M ! i ! j = sim i j"
  shows "snd (sweep M threshold n rows (visited, groups))
           = groups @ greedy_groups sim threshold n rows (vis_set visited)"
  using assms(1,2)
proof (induction rows arbitrary: visited groups)
  case Nil
  show ?case by simp
next
  case (Cons i rows)
  have i: "i < n" using Cons.prems(2) [of i] by simp
  have rest: "\<And>k. k \<in> set rows \<Longrightarrow> k < n"
    using Cons.prems(2) by simp
  show ?case
  proof (cases "visited ! i")
    case True
    then have "i \<in> vis_set visited"
      using i Cons.prems(1) by (simp add: vis_set_def)
    with True Cons.IH [OF Cons.prems(1) rest] show ?thesis by simp
  next
    case False
    then have notin: "i \<notin> vis_set visited"
      by (simp add: vis_set_def)
    define visited1 where "visited1 = visited[i := True]"
    define members where "members = filter (\<lambda>j. j \<notin> vis_set visited \<and> threshold \<le> sim i j) [i + 1..<n]"
    have l1: "length visited1 = n"
      using Cons.prems(1) by (simp add: visited1_def)
    have f: "filter (\<lambda>j. \<not> visited1 ! j \<and> threshold \<le> M ! i ! j) [i + 1..<n] = members"
      unfolding members_def
    proof (rule filter_cong [OF refl])
      fix j assume "j \<in> set [i + 1..<n]"
      then have j: "i < j" "j < n" by simp_all
      then have "visited1 ! j = visited ! j"
        by (simp add: visited1_def)
      with j M [OF j] Cons.prems(1)
      show "(\<not> visited1 ! j \<and> threshold \<le> M ! i ! j) = (j \<notin> vis_set visited \<and> threshold \<le> sim i j)"
        by (simp add: vis_set_def)
    qed
    obtain grp visited' where c: "collect_similar M threshold i [i + 1..<n] ([i], visited1) = (grp, visited')"
      by (cases "collect_similar M threshold i [i + 1..<n] ([i], visited1)")
    have "fst (collect_similar M threshold i [i + 1..<n] ([i], visited1))
            = [i] @ filter (\<lambda>j. \<not> visited1 ! j \<and> threshold \<le> M ! i ! j) [i + 1..<n]
          \<and> length (snd (collect_similar M threshold i [i + 1..<n] ([i], visited1))) = length visited1
          \<and> vis_set (snd (collect_similar M threshold i [i + 1..<n] ([i], visited1)))
              = vis_set visited1 \<union> set (filter (\<lambda>j. \<not> visited1 ! j \<and> threshold \<le> M ! i ! j) [i + 1..<n])"
      by (rule collect_similar_eq) (simp_all add: l1)
    then have ce: "grp = i # members" "length visited' = n"
         "vis_set visited' = vis_set visited1 \<union> set members"
      unfolding f c by (simp_all add: l1)
    have v1: "vis_set visited1 = insert i (vis_set visited)"
      using i Cons.prems(1) by (auto simp: vis_set_def visited1_def nth_list_update)
    have v': "vis_set visited' = vis_set visited \<union> {i} \<union> set members"
      using ce(3) v1 by auto
    have "snd (sweep M threshold n (i # rows) (visited, groups))
            = snd (sweep M threshold n rows
                     (visited', if 1 < length grp then groups @ [grp] else groups))"
      using False c by (simp add: visited1_def)
    also have "\<dots> = (if 1 < length grp then groups @ [grp] else groups)
                       @ greedy_groups sim threshold n rows (vis_set visited')"
      by (rule Cons.IH [OF ce(2) rest])
    also have "\<dots> = groups @ greedy_groups sim threshold n (i # rows) (vis_set visited)"
      using notin by (simp add: ce(1) v' members_def Let_def)
    finally show ?thesis .
  qed
qed

lemma find_similar_candidates_greedy:
  "find_similar_candidates threshold points
     = greedy_groups (\<lambda>i j. calculate_similarity (points ! i) (points ! j)) threshold
         (length points) [0..<length points] {}"
proof -
  have "vis_set (replicate (length points) False) = {}"
    by (auto simp: vis_set_def)
  with sweep_eq_greedy_groups
         [of "replicate (length points) False" "length points" "[0..<length points]"
             "similarity_matrix points"
             "\<lambda>i j. calculate_similarity (points ! i) (points ! j)" threshold "[]"]
  show ?thesis
    by (simp add: find_similar_candidates_def Let_def similarity_matrix_entry)
qed

lemma greedy_groups_props:
  assumes "\<And>i. i \<in> set rows \<Longrightarrow> i < n"
  shows "set (concat (greedy_groups sim threshold n rows visited)) \<inter> visited = {}
         \<and> distinct (concat (greedy_groups sim threshold n rows visited))
         \<and> set (concat (greedy_groups sim threshold n rows visited)) \<subseteq> {..<n}
         \<and> list_all (\<lambda>g. 2 \<le> length g) (greedy_groups sim threshold n rows visited)"
  using assms
proof (induction rows arbitrary: visited)
  case Nil
  show ?case by simp
next
  case (Cons i rows)
  have i: "i < n" using Cons.prems [of i] by simp
  have rest: "\<And>k. k \<in> set rows \<Longrightarrow> k < n"
    using Cons.prems by simp
  show ?case
  proof (cases "i \<in> visited")
    case True
    with Cons.IH [OF rest, of visited] show ?thesis by simp
  next
    case False
    define members where "members = filter (\<lambda>j. j \<notin> visited \<and> threshold \<le> sim i j) [i + 1..<n]"
    define G where "G = greedy_groups sim threshold n rows (visited \<union> {i} \<union> set members)"
    have m: "distinct members" "set members \<subseteq> {..<n}" "set members \<inter> visited = {}" "i \<notin> set members"
      by (auto simp: members_def)
    have IH: "set (concat G) \<inter> (visited \<union> {i} \<union> set members) = {}" "distinct (concat G)"
      "set (concat G) \<subseteq> {..<n}" "list_all (\<lambda>g. 2 \<le> length g) G"
      using Cons.IH [OF rest, of "visited \<union> {i} \<union> set members"] by (simp_all add: G_def)
    have eq: "greedy_groups sim threshold n (i # rows) visited
                = (if members = [] then [] else [i # members]) @ G"
      using False by (simp add: members_def G_def Let_def)
    show ?thesis
    proof (cases "members = []")
      case True
      with eq IH show ?thesis by auto
    next
      case nonempty: False
      then have "2 \<le> length (i # members)"
        by (cases members) simp_all
      with eq nonempty IH m i False show ?thesis
        by auto
    qed
  qed
qed

text \<open>
  Claim C6. The candidate groups that \<open>_find_similar_candidates\<close> returns are those of
  the greedy sweep as the claim words it (\<open>greedy_groups\<close>), run over the indices
  \<open>0, ..., n - 1\<close> in increasing order from an empty visited set, with the similarity of
  \<open>i\<close> and \<open>j\<close> computed by \<open>_calculate_similarity\<close> on the points at \<open>i\<close> and \<open>j\<close>. Every
  group returned has two members or more, and no index is in two groups or twice in one.
  The result is a function of the list and the threshold alone, so a second run on the
  same list returns the same groups.
\<close>

theorem find_similar_candidates_is_greedy_sweep:
  "find_similar_candidates threshold points
     = greedy_groups (\<lambda>i j. calculate_similarity (points ! i) (points ! j)) threshold
         (length points) [0..<length points] {}
   \<and> list_all (\<lambda>g. 2 \<le> length g) (find_similar_candidates threshold points)
   \<and> distinct (concat (find_similar_candidates threshold points))"
proof -
  have "set (concat (greedy_groups (\<lambda>i j. calculate_similarity (points ! i) (points ! j)) threshold
                       (length points) [0..<length points] {})) \<inter> {} = {}
        \<and> distinct (concat (greedy_groups (\<lambda>i j. calculate_similarity (points ! i) (points ! j))
                               threshold (length points) [0..<length points] {}))
        \<and> set (concat (greedy_groups (\<lambda>i j. calculate_similarity (points ! i) (points ! j)) threshold
                         (length points) [0..<length points] {})) \<subseteq> {..<length points}
        \<and> list_all (\<lambda>g. 2 \<le> length g)
             (greedy_groups (\<lambda>i j. calculate_similarity (points ! i) (points ! j)) threshold
                (length points) [0..<length points] {})"
    by (rule greedy_groups_props) simp
  then show ?thesis
    by (simp add: find_similar_candidates_greedy)
qed

text \<open>
  The example of the specification: two points titled "Derivative" and "Derivatives" with
  the same content are grouped at the default threshold.
\<close>

definition derivative_points :: "string KnowledgePoint list" where
  "derivative_points =
     [\<lparr>title = ''Derivative'', content = ''slope'', video_markers = [], source_file = ''a.srt'',
       importance = 3\<rparr>,
      \<lparr>title = ''Derivatives'', content = ''slope'', video_markers = [], source_file = ''b.srt'',
       importance = 3\<rparr>]"

lemma find_similar_candidates_derivative:
  "find_similar_candidates 0.75 derivative_points = [[0, 1]]"
  by code_simp

subsection \<open>Confirmed groups are candidate groups\<close>

lemma lookup_points_in_range:
  "(\<And>i. i \<in> set idx \<Longrightarrow> i < length points) \<Longrightarrow>
     lookup_points points idx = Inr (map (\<lambda>i. points ! i) idx)"
  by (induction idx) simp_all

lemma confirm_reply_indices:
  "confirm_reply data t idx = Inr gs \<Longrightarrow> gs = [] \<or> (\<exists>g. gs = [g] \<and> indices g = idx)"
  by (auto simp: confirm_reply_def split: sum.splits if_splits bool.splits)

lemma confirm_group_indices:
  assumes "\<And>i. i \<in> set idx \<Longrightarrow> i < length points"
  shows "\<exists>gs w'. confirm_group E points idx w = (Inr gs, w')
           \<and> (gs = [] \<or> (\<exists>g. gs = [g] \<and> indices g = idx))"
proof -
  define group_points where "group_points = map (\<lambda>i. points ! i) idx"
  define pr where "pr = ConfirmPrompt (map (\<lambda>(i, p). (i, title p, take 100 (content p)))
                                      (zip idx group_points))"
  obtain r w' where g: "generate E pr w = (r, w')"
    by (cases "generate E pr w")
  define attempt where "attempt = (case r of
                        Inl e \<Rightarrow> Inl e
                      | Inr result \<Rightarrow>
                          confirm_reply (parse_json_response (json_loads E) result)
                            (title (hd group_points)) idx)"
  have cg: "confirm_group E points idx w =
              (case attempt of
                  Inr gs \<Rightarrow> (Inr gs, w')
                | Inl e \<Rightarrow>
                    (Inr [\<lparr>best_title = JStr (title (hd group_points)), indices = idx,
                           similarity_scores = replicate (length idx) 1,
                           reason = JStr ''automatic merge (confirmation failed)''\<rparr>],
                     w'))"
    using lookup_points_in_range [OF assms] g
    by (simp add: confirm_group_def group_points_def [symmetric] pr_def [symmetric] attempt_def)
  show ?thesis
  proof (cases attempt)
    case (Inl e)
    with cg show ?thesis by simp
  next
    case (Inr gs)
    then have "gs = [] \<or> (\<exists>g. gs = [g] \<and> indices g = idx)"
      by (cases r) (auto simp: attempt_def dest: confirm_reply_indices)
    with cg Inr show ?thesis by simp
  qed
qed

definition groups_ok :: "nat \<Rightarrow> nat list list \<Rightarrow> bool" where
  "groups_ok n gs = (distinct (concat gs) \<and> set (concat gs) \<subseteq> {..<n} \<and> list_all (\<lambda>g. 2 \<le> length g) gs)"

lemma confirm_duplicates_groups:
  assumes "set (concat groups) \<subseteq> {..<length points}" "distinct (concat groups)"
    "list_all (\<lambda>g. 2 \<le> length g) groups"
  shows "\<exists>cs w'. confirm_duplicates E points groups w = (Inr cs, w')
           \<and> set (concat (map indices cs)) \<subseteq> set (concat groups)
           \<and> groups_ok (length points) (map indices cs)
           \<and> set (map indices cs) \<subseteq> set groups"
  using assms
proof (induction groups arbitrary: w)
  case Nil
  show ?case by (simp add: groups_ok_def)
next
  case (Cons idx groups)
  have idx: "\<And>i. i \<in> set idx \<Longrightarrow> i < length points" "2 \<le> length idx" "distinct idx"
    "set idx \<inter> set (concat groups) = {}"
    using Cons.prems by auto
  obtain gs w1 where cg: "confirm_group E points idx w = (Inr gs, w1)"
    and gs: "gs = [] \<or> (\<exists>g. gs = [g] \<and> indices g = idx)"
    using confirm_group_indices [OF idx(1), where E = E and w = w] by blast
  have rest: "set (concat groups) \<subseteq> {..<length points}" "distinct (concat groups)"
    "list_all (\<lambda>g. 2 \<le> length g) groups"
    using Cons.prems by auto
  obtain cs w2 where IH: "confirm_duplicates E points groups w1 = (Inr cs, w2)"
    "set (concat (map indices cs)) \<subseteq> set (concat groups)"
    "groups_ok (length points) (map indices cs)"
    "set (map indices cs) \<subseteq> set groups"
    using Cons.IH [OF rest, of w1] by blast
  have eq: "confirm_duplicates E points (idx # groups) w = (Inr (gs @ cs), w2)"
    using idx(2) cg IH(1) by simp
  from gs show ?case
  proof
    assume "gs = []"
    with eq IH show ?thesis by auto
  next
    assume "\<exists>g. gs = [g] \<and> indices g = idx"
    then obtain g where g: "gs = [g]" "indices g = idx" by blast
    have "groups_ok (length points) (map indices (gs @ cs))"
      using IH(2,3) idx g by (auto simp: groups_ok_def)
    moreover have "set (concat (map indices (gs @ cs))) \<subseteq> set (concat (idx # groups))"
      using IH(2) g by auto
    moreover have "set (map indices (gs @ cs)) \<subseteq> set (idx # groups)"
      using IH(4) g by auto
    ultimately show ?thesis
      unfolding eq by blast
  qed
qed

subsection \<open>Merging conserves the points\<close>

definition total_merged_from :: "MergedKnowledge list \<Rightarrow> nat" where
  "total_merged_from ms = sum_list (map merged_from ms)"

text \<open>
  What the claim speaks of. \<open>confirmed_indices\<close> are the index lists of the groups that
  the confirmation phase of a run returns (there is no such phase for fewer than two
  points). \<open>output_blocks\<close> says which input indices each output stands for: one block
  per confirmed group, in the order of the groups, and then one block \<open>[i]\<close> for every
  index \<open>i\<close> that is in no group, in increasing order.
\<close>

definition confirmed_indices ::
  "env \<Rightarrow> real \<Rightarrow> string KnowledgePoint list \<Rightarrow> world \<Rightarrow> nat list list" where
  "confirmed_indices E threshold points w =
     (if length points \<le> 1 then []
      else (case fst (confirm_duplicates E points (find_similar_candidates threshold points) w) of
              Inr confirmed_groups \<Rightarrow> map indices confirmed_groups
            | Inl e \<Rightarrow> []))"

definition output_blocks :: "nat \<Rightarrow> nat list list \<Rightarrow> nat list list" where
  "output_blocks n groups =
     groups @ map (\<lambda>i. [i]) (filter (\<lambda>i. i \<notin> set (concat groups)) [0..<n])"

definition block_sources :: "string KnowledgePoint list \<Rightarrow> nat list \<Rightarrow> string set" where
  "block_sources points block = (\<lambda>i. source_file (points ! i)) ` set block"

lemma merge_group_block:
  assumes "2 \<le> length idx"
  shows "merged_from (fst (merge_group E (map (\<lambda>i. points ! i) idx) t w)) = length idx
         \<and> sources (fst (merge_group E (map (\<lambda>i. points ! i) idx) t w)) = block_sources points idx"
proof -
  define gp where "gp = map (\<lambda>i. points ! i) idx"
  have len: "length gp = length idx" "length gp \<noteq> 1"
    using assms by (simp_all add: gp_def)
  have src: "set (map source_file gp) = block_sources points idx"
    by (auto simp: gp_def block_sources_def)
  obtain r w' where g: "generate E (MergePrompt (length gp)
                          (map (\<lambda>p. (title p, take 1000 (content p))) (take 5 gp))) w = (r, w')"
    by (cases "generate E (MergePrompt (length gp)
                 (map (\<lambda>p. (title p, take 1000 (content p))) (take 5 gp))) w")
  have "merged_from (fst (merge_group E gp t w)) = length idx
        \<and> sources (fst (merge_group E gp t w)) = block_sources points idx"
    using len g src by (simp add: merge_group_def)
  then show ?thesis
    by (simp add: gp_def)
qed

lemma merge_groups_loop_blocks:
  assumes "list_all (\<lambda>g. 2 \<le> length g) (map indices cs)"
    "set (concat (map indices cs)) \<subseteq> {..<length points}"
  shows "\<exists>new. fst (fst (merge_groups_loop E points cs (merged, used) w)) = merged @ new
           \<and> map merged_from new = map length (map indices cs)
           \<and> map sources new = map (block_sources points) (map indices cs)
           \<and> snd (fst (merge_groups_loop E points cs (merged, used) w))
               = used \<union> set (concat (map indices cs))"
  using assms
proof (induction cs arbitrary: merged used w)
  case Nil
  show ?case by simp
next
  case (Cons c cs)
  define group_points where
    "group_points = map (\<lambda>i. points ! i) (filter (\<lambda>i. i < length points) (indices c))"
  have all: "filter (\<lambda>i. i < length points) (indices c) = indices c"
    using Cons.prems(2) by (auto simp: filter_id_conv)
  then have gp: "group_points = map (\<lambda>i. points ! i) (indices c)"
    by (simp add: group_points_def)
  have two: "2 \<le> length (indices c)" "1 < length group_points"
    using Cons.prems(1) gp by auto
  obtain mp w' where mg: "merge_group E group_points (best_title c) w = (mp, w')"
    by (cases "merge_group E group_points (best_title c) w")
  have mp: "merged_from mp = length (indices c)" "sources mp = block_sources points (indices c)"
    using merge_group_block [OF two(1), of E points "best_title c" w] mg gp by simp_all
  have rest: "list_all (\<lambda>g. 2 \<le> length g) (map indices cs)"
    "set (concat (map indices cs)) \<subseteq> {..<length points}"
    using Cons.prems by auto
  have step: "merge_groups_loop E points (c # cs) (merged, used) w
                = merge_groups_loop E points cs (merged @ [mp], used \<union> set (indices c)) w'"
    using two(2) mg by (simp add: group_points_def [symmetric] Let_def)
  from Cons.IH [OF rest, of "merged @ [mp]" "used \<union> set (indices c)" w']
  obtain new where new:
    "fst (fst (merge_groups_loop E points cs (merged @ [mp], used \<union> set (indices c)) w'))
       = (merged @ [mp]) @ new"
    "map merged_from new = map length (map indices cs)"
    "map sources new = map (block_sources points) (map indices cs)"
    "snd (fst (merge_groups_loop E points cs (merged @ [mp], used \<union> set (indices c)) w'))
       = (used \<union> set (indices c)) \<union> set (concat (map indices cs))"
    by blast
  have "fst (fst (merge_groups_loop E points (c # cs) (merged, used) w)) = merged @ (mp # new)"
    unfolding step using new(1) by simp
  moreover have "map merged_from (mp # new) = map length (map indices (c # cs))"
    using mp(1) new(2) by simp
  moreover have "map sources (mp # new) = map (block_sources points) (map indices (c # cs))"
    using mp(2) new(3) by simp
  moreover have "snd (fst (merge_groups_loop E points (c # cs) (merged, used) w))
                   = used \<union> set (concat (map indices (c # cs)))"
    unfolding step using new(4) by auto
  ultimately show ?case by blast
qed

lemma enumerate_nth_map: "enumerate 0 xs = map (\<lambda>i. (i, xs ! i)) [0..<length xs]"
  by (rule nth_equalityI) (simp_all add: nth_enumerate_eq)

lemma pass_through_points:
  "map (\<lambda>ip. to_merged (snd ip)) (filter (\<lambda>ip. fst ip \<notin> used) (enumerate 0 points))
     = map (\<lambda>i. to_merged (points ! i)) (filter (\<lambda>i. i \<notin> used) [0..<length points])"
  by (simp add: enumerate_nth_map filter_map comp_def)

lemma output_blocks_partition:
  assumes "distinct (concat groups)" "set (concat groups) \<subseteq> {..<n}"
  shows "distinct (concat (output_blocks n groups))
         \<and> set (concat (output_blocks n groups)) = {..<n}"
proof -
  have c: "concat (output_blocks n groups)
             = concat groups @ filter (\<lambda>i. i \<notin> set (concat groups)) [0..<n]"
    by (simp add: output_blocks_def concat_map_singleton)
  show ?thesis
    unfolding c using assms by auto
qed

lemma merge_all_groups_blocks:
  assumes "groups_ok (length points) (map indices cs)"
  shows "map merged_from (fst (merge_all_groups E points cs w))
           = map length (output_blocks (length points) (map indices cs))
         \<and> map sources (fst (merge_all_groups E points cs w))
           = map (block_sources points) (output_blocks (length points) (map indices cs))
         \<and> drop (length cs) (fst (merge_all_groups E points cs w))
           = map (\<lambda>i. to_merged (points ! i))
               (filter (\<lambda>i. i \<notin> set (concat (map indices cs))) [0..<length points])"
proof -
  have ok: "set (concat (map indices cs)) \<subseteq> {..<length points}"
    "list_all (\<lambda>g. 2 \<le> length g) (map indices cs)"
    using assms by (simp_all add: groups_ok_def)
  from merge_groups_loop_blocks [OF ok(2,1), of E "[]" "{}" w]
  obtain new where new:
    "fst (fst (merge_groups_loop E points cs ([], {}) w)) = new"
    "map merged_from new = map length (map indices cs)"
    "map sources new = map (block_sources points) (map indices cs)"
    "snd (fst (merge_groups_loop E points cs ([], {}) w)) = set (concat (map indices cs))"
    by auto
  obtain merged used w' where l: "merge_groups_loop E points cs ([], {}) w = ((merged, used), w')"
    by (cases "merge_groups_loop E points cs ([], {}) w") auto
  have mu: "merged = new" "used = set (concat (map indices cs))"
    using new(1,4) l by simp_all
  have len: "length new = length cs"
    using arg_cong [OF new(2), of length] by simp
  have out: "fst (merge_all_groups E points cs w)
               = new @ map (\<lambda>i. to_merged (points ! i))
                         (filter (\<lambda>i. i \<notin> set (concat (map indices cs))) [0..<length points])"
    using l mu by (simp add: merge_all_groups_def pass_through_points)
  have a: "map merged_from (fst (merge_all_groups E points cs w))
             = map length (output_blocks (length points) (map indices cs))"
    unfolding out using new(2) by (simp add: output_blocks_def to_merged_def comp_def)
  have b: "map sources (fst (merge_all_groups E points cs w))
             = map (block_sources points) (output_blocks (length points) (map indices cs))"
    unfolding out using new(3)
    by (simp add: output_blocks_def to_merged_def comp_def block_sources_def)
  have c: "drop (length cs) (fst (merge_all_groups E points cs w))
             = map (\<lambda>i. to_merged (points ! i))
                 (filter (\<lambda>i. i \<notin> set (concat (map indices cs))) [0..<length points])"
    unfolding out using len by simp
  from a b c show ?thesis by blast
qed

lemma sum_list_lengths: "sum_list (map length xss) = length (concat xss)"
  by (induction xss) simp_all

lemma partition_total:
  assumes "distinct (concat blocks)" "set (concat blocks) = {..<n}"
  shows "sum_list (map length blocks) = n"
proof -
  have "card (set (concat blocks)) = length (concat blocks)"
    by (rule distinct_card [OF assms(1)])
  then have "length (concat blocks) = n"
    unfolding assms(2) by simp
  then show ?thesis
    by (simp only: sum_list_lengths)
qed

text \<open>
  Claim C10. For every list of points, every threshold and every behaviour of the
  generative service, \<open>merge_duplicates\<close> returns a list (the index lookups of the
  confirmation phase never fail on the groups of the prefilter). The confirmed groups
  are among the candidate groups of the prefilter. The outputs stand for the blocks of
  \<open>output_blocks\<close>, one output per block and in their order: an output counts in
  \<open>merged_from\<close> the indices of its block and has the source files of the points at those
  indices as its \<open>sources\<close>, and the outputs after those of the groups are the points in
  no group, passed through as they are. The blocks are a partition of the indices
  \<open>0 ..< N\<close>: every index is in exactly one block, none is left out and none is there
  twice. So the numbers \<open>merged_from\<close> add up to \<open>N\<close>.
\<close>

theorem merge_duplicates_conserves_points:
  "\<exists>merged. fst (merge_duplicates E threshold points w) = Inr merged
     \<and> map merged_from merged
         = map length (output_blocks (length points) (confirmed_indices E threshold points w))
     \<and> map sources merged
         = map (block_sources points)
             (output_blocks (length points) (confirmed_indices E threshold points w))
     \<and> drop (length (confirmed_indices E threshold points w)) merged
         = map (\<lambda>i. to_merged (points ! i))
             (filter (\<lambda>i. i \<notin> set (concat (confirmed_indices E threshold points w)))
                [0..<length points])
     \<and> set (confirmed_indices E threshold points w) \<subseteq> set (find_similar_candidates threshold points)
     \<and> distinct (concat (output_blocks (length points) (confirmed_indices E threshold points w)))
     \<and> set (concat (output_blocks (length points) (confirmed_indices E threshold points w)))
         = {..<length points}
     \<and> total_merged_from merged = length points"
proof (cases "length points \<le> 1")
  case True
  then consider "points = []" | "length points = 1"
    by (cases points) auto
  then show ?thesis
  proof cases
    case 1
    then show ?thesis
      by (simp add: merge_duplicates_def total_merged_from_def confirmed_indices_def
            output_blocks_def)
  next
    case 2
    then obtain p where p: "points = [p]"
      by (cases points) auto
    show ?thesis
      unfolding p
      by (auto simp: merge_duplicates_def total_merged_from_def confirmed_indices_def
            output_blocks_def block_sources_def to_merged_def)
  qed
next
  case False
  define groups where "groups = find_similar_candidates threshold points"
  have g: "set (concat groups) \<inter> {} = {}
         \<and> distinct (concat groups)
         \<and> set (concat groups) \<subseteq> {..<length points}
         \<and> list_all (\<lambda>g. 2 \<le> length g) groups"
    unfolding groups_def find_similar_candidates_greedy
    by (rule greedy_groups_props) simp
  obtain cs w' where c: "confirm_duplicates E points groups w = (Inr cs, w')"
    "groups_ok (length points) (map indices cs)"
    "set (map indices cs) \<subseteq> set groups"
    using confirm_duplicates_groups [of groups points E w] g by blast
  have ci: "confirmed_indices E threshold points w = map indices cs"
    using False c(1) by (simp add: confirmed_indices_def groups_def)
  obtain merged w'' where m: "merge_all_groups E points cs w' = (merged, w'')"
    by (cases "merge_all_groups E points cs w'")
  have run: "fst (merge_duplicates E threshold points w) = Inr merged"
    using False c(1) m by (auto simp: merge_duplicates_def groups_def)
  have blocks: "map merged_from merged = map length (output_blocks (length points) (map indices cs))"
    "map sources merged
       = map (block_sources points) (output_blocks (length points) (map indices cs))"
    "drop (length cs) merged
       = map (\<lambda>i. to_merged (points ! i))
           (filter (\<lambda>i. i \<notin> set (concat (map indices cs))) [0..<length points])"
    using merge_all_groups_blocks [OF c(2), of E w'] m by simp_all
  have part: "distinct (concat (output_blocks (length points) (map indices cs)))"
    "set (concat (output_blocks (length points) (map indices cs))) = {..<length points}"
    using output_blocks_partition [of "map indices cs" "length points"] c(2)
    by (simp_all add: groups_ok_def)
  have total: "total_merged_from merged = length points"
    unfolding total_merged_from_def blocks(1) by (rule partition_total [OF part])
  show ?thesis
    unfolding ci using run blocks part total c(3) by (simp add: groups_def)
qed

subsection \<open>The similarity scorer\<close>

lemma calculate_similarity_same: "calculate_similarity a a = 1"
  by (simp add: calculate_similarity_def ratio_same)

lemma calculate_similarity_range:
  "0 \<le> calculate_similarity a b \<and> calculate_similarity a b \<le> 1"
proof -
  define t where "t = ratio (py_lower (title a)) (py_lower (title b))"
  define c where "c = ratio (py_lower (take 200 (content a))) (py_lower (take 200 (content b)))"
  have "0 \<le> t" "t \<le> 1" "0 \<le> c" "c \<le> 1"
    using ratio_range by (simp_all add: t_def c_def)
  then have "0 \<le> t * 0.6 + c * 0.4 \<and> t * 0.6 + c * 0.4 \<le> 1"
    by simp
  then show ?thesis
    by (simp add: calculate_similarity_def t_def c_def)
qed

text \<open>
  Claim C7, as the code has it. The score of a point against itself is 1; every score
  lies between 0 and 1; the score is 0.6 times the ratio of the lower-cased titles plus
  0.4 times the ratio of the lower-cased first 200 characters of the contents. (The
  score is not symmetric; see the counterexample below.)
\<close>

theorem calculate_similarity_reflexive_bounded:
  "calculate_similarity a a = 1
   \<and> 0 \<le> calculate_similarity a b \<and> calculate_similarity a b \<le> 1
   \<and> calculate_similarity a b
       = ratio (py_lower (title a)) (py_lower (title b)) * 0.6
         + ratio (py_lower (take 200 (content a))) (py_lower (take 200 (content b))) * 0.4"
  using calculate_similarity_same [of a] calculate_similarity_range [of a b]
  by (simp add: calculate_similarity_def)

text \<open>
  The ratio of \<open>difflib\<close> depends on the order of its arguments: the titles "Tide" and
  "Diet" score 0.25 one way and 0.5 the other, so the two points below score 0.55 and
  0.7.
\<close>

definition tide_point :: "string KnowledgePoint" where
  "tide_point =
     \<lparr>title = ''Tide'', content = ''notes'', video_markers = [], source_file = ''a.srt'',
      importance = 3\<rparr>"

definition diet_point :: "string KnowledgePoint" where
  "diet_point =
     \<lparr>title = ''Diet'', content = ''notes'', video_markers = [], source_file = ''b.srt'',
      importance = 3\<rparr>"

theorem calculate_similarity_not_symmetric:
  "calculate_similarity tide_point diet_point = 11 / 20
   \<and> calculate_similarity diet_point tide_point = 7 / 10
   \<and> calculate_similarity tide_point diet_point \<noteq> calculate_similarity diet_point tide_point"
  by code_simp

section \<open>Topic clustering (src/src/clustering.py, class CrossDocumentClusteringSkill)\<close>

text \<open>
  The dataclass \<open>TopicCluster\<close>. All its fields can come straight from a decoded reply
  and are JSON values; \<open>point_indices\<close> in particular is whatever the reply holds under
  that key, or the list the index translation builds.
\<close>

record TopicCluster =
  tc_id :: json
  tc_title :: json
  tc_description :: json
  point_indices :: json
  tc_keywords :: json

text \<open>
  \<open>_create_batches\<close>: the slices \<open>all_points[i : i + bsize]\<close> for \<open>i\<close> in
  \<open>range(0, len(all_points), bsize)\<close>, where \<open>bsize\<close> is \<open>self.max_points_per_batch\<close> (50
  unless the constructor is given another). A step of 0 makes \<open>range\<close> raise
  \<open>ValueError\<close>.
\<close>

datatype range_error = ValueError

definition range_step :: "nat \<Rightarrow> nat \<Rightarrow> nat list" where
  "range_step n bsize = map (\<lambda>k. k * bsize) [0..<(n + bsize - 1) div bsize]"

definition create_batches :: "nat \<Rightarrow> 'a list \<Rightarrow> range_error + 'a list list" where
  "create_batches bsize all_points =
     (if bsize = 0 then Inl ValueError
      else Inr (map (\<lambda>i. take bsize (drop i all_points)) (range_step (length all_points) bsize)))"

text \<open>The comparison \<open>i < n\<close> and the sum \<open>i + offset\<close> for a value \<open>i\<close> of a reply.\<close>

fun py_less :: "json \<Rightarrow> int \<Rightarrow> error + bool" where
  "py_less (JBool b) n = Inr ((if b then 1 else 0) < n)"
| "py_less (JInt i) n = Inr (i < n)"
| "py_less (JReal r) n = Inr (r < real_of_int n)"
| "py_less v n = Inl TypeError"

fun py_plus :: "json \<Rightarrow> int \<Rightarrow> error + json" where
  "py_plus (JBool b) n = Inr (JInt ((if b then 1 else 0) + n))"
| "py_plus (JInt i) n = Inr (JInt (i + n))"
| "py_plus (JReal r) n = Inr (JReal (r + real_of_int n))"
| "py_plus v n = Inl TypeError"

text \<open>
  The list comprehension \<open>[i + offset for i in ... if i < len(batch_points)]\<close>: an index
  is kept when it is below the length of the batch, and then moved by the offset.
\<close>

fun shift_indices :: "int \<Rightarrow> int \<Rightarrow> json list \<Rightarrow> error + json list" where
  "shift_indices offset batch_len [] = Inr []"
| "shift_indices offset batch_len (i # is) =
     (case py_less i batch_len of
        Inl e \<Rightarrow> Inl e
      | Inr keep \<Rightarrow>
          (case (if keep then map_sum id (\<lambda>v. [v]) (py_plus i offset) else Inr []) of
             Inl e \<Rightarrow> Inl e
           | Inr this \<Rightarrow>
               (case shift_indices offset batch_len is of
                  Inl e \<Rightarrow> Inl e
                | Inr rest \<Rightarrow> Inr (this @ rest))))"

text \<open>
  The value that ends up in \<open>point_indices\<close> of the topic built from \<open>topic_data\<close>: for
  \<open>batch_idx > 0\<close> the translated list, for the first batch what the reply holds. The
  translation is guarded by \<open>if batch_idx > 0\<close>, so the first batch has no range check.
\<close>

definition adjust_point_indices :: "nat \<Rightarrow> nat \<Rightarrow> nat \<Rightarrow> json \<Rightarrow> error + json" where
  "adjust_point_indices batch_idx bsize batch_len topic_data =
     (if 0 < batch_idx then
        (case py_get topic_data ''point_indices'' (JArr []) of
           Inl e \<Rightarrow> Inl e
         | Inr v \<Rightarrow>
             (case py_iter v of
                Inl e \<Rightarrow> Inl e
              | Inr xs \<Rightarrow>
                  (case shift_indices (int (batch_idx * bsize)) (int batch_len) xs of
                     Inl e \<Rightarrow> Inl e
                   | Inr ys \<Rightarrow> Inr (JArr ys))))
      else py_get topic_data ''point_indices'' (JArr []))"

text \<open>The decimal text of a number, for the default ids \<open>f"topic_{n}"\<close>.\<close>

fun string_of_nat :: "nat \<Rightarrow> string" where
  "string_of_nat n =
     (if n < 10 then [char_of (48 + n)]
      else string_of_nat (n div 10) @ [char_of (48 + n mod 10)])"

declare string_of_nat.simps [simp del]

text \<open>
  The construction of one \<open>TopicCluster\<close> from \<open>topic_data\<close>; \<open>n_topics\<close> is
  \<open>len(all_topics)\<close> at that moment. The default title is a CJK literal in the source
  (the words for "unnamed topic"); the model writes it in English.
\<close>

definition untitled_topic :: string where
  "untitled_topic = ''unnamed topic''"

definition make_topic :: "nat \<Rightarrow> nat \<Rightarrow> nat \<Rightarrow> nat \<Rightarrow> json \<Rightarrow> error + TopicCluster" where
  "make_topic batch_idx bsize batch_len n_topics topic_data =
     (case adjust_point_indices batch_idx bsize batch_len topic_data of
        Inl e \<Rightarrow> Inl e
      | Inr idx \<Rightarrow>
          (case py_get topic_data ''id'' (JStr (''topic_'' @ string_of_nat n_topics)) of
             Inl e \<Rightarrow> Inl e
           | Inr i \<Rightarrow>
               (case py_get topic_data ''title'' (JStr untitled_topic) of
                  Inl e \<Rightarrow> Inl e
                | Inr t \<Rightarrow>
                    (case py_get topic_data ''description'' (JStr []) of
                       Inl e \<Rightarrow> Inl e
                     | Inr d \<Rightarrow>
                         (case py_get topic_data ''keywords'' (JArr []) of
                            Inl e \<Rightarrow> Inl e
                          | Inr k \<Rightarrow>
                              Inr \<lparr>tc_id = i, tc_title = t, tc_description = d,
                                   point_indices = idx, tc_keywords = k\<rparr>)))))"

text \<open>
  The loop over the topics of one reply. It appends to \<open>all_topics\<close>; an exception stops
  it and leaves what was appended so far.
\<close>

fun topics_of_reply ::
  "nat \<Rightarrow> nat \<Rightarrow> nat \<Rightarrow> json list \<Rightarrow> TopicCluster list \<Rightarrow> TopicCluster list \<times> error option" where
  "topics_of_reply batch_idx bsize batch_len [] all_topics = (all_topics, None)"
| "topics_of_reply batch_idx bsize batch_len (topic_data # rest) all_topics =
     (case make_topic batch_idx bsize batch_len (length all_topics) topic_data of
        Inl e \<Rightarrow> (all_topics, Some e)
      | Inr topic \<Rightarrow> topics_of_reply batch_idx bsize batch_len rest (all_topics @ [topic]))"

text \<open>The fallback of the \<open>except\<close> branch: one topic per point of the batch.\<close>

definition singleton_topics :: "nat \<Rightarrow> nat \<Rightarrow> string KnowledgePoint list \<Rightarrow> TopicCluster list" where
  "singleton_topics batch_idx bsize batch_points =
     map (\<lambda>ip. \<lparr>tc_id = JStr (''topic_'' @ string_of_nat (batch_idx * bsize + fst ip)),
                tc_title = JStr (title (snd ip)),
                tc_description = JStr (take 100 (content (snd ip))),
                point_indices = JArr [JInt (int (batch_idx * bsize + fst ip))],
                tc_keywords = JArr []\<rparr>)
         (enumerate 0 batch_points)"

text \<open>One round of the loop over the batches: the call, the extraction, the topics.\<close>

definition identify_batch ::
  "env \<Rightarrow> nat \<Rightarrow> nat \<Rightarrow> string KnowledgePoint list \<Rightarrow> TopicCluster list \<Rightarrow> world
     \<Rightarrow> TopicCluster list \<times> world" where
  "identify_batch E bsize batch_idx batch_points all_topics w =
     (case generate E (TopicsPrompt (map (\<lambda>p. (title p, take 150 (content p))) batch_points)) w of
        (r, w') \<Rightarrow>
          (case (case r of
                   Inl e \<Rightarrow> (all_topics, Some e)
                 | Inr result \<Rightarrow>
                     (case py_get (parse_json_response (json_loads E) result) ''topics'' (JArr []) of
                        Inl e \<Rightarrow> (all_topics, Some e)
                      | Inr v \<Rightarrow>
                          (case py_iter v of
                             Inl e \<Rightarrow> (all_topics, Some e)
                           | Inr tds \<Rightarrow>
                               topics_of_reply batch_idx bsize (length batch_points) tds all_topics))) of
             (topics, None) \<Rightarrow> (topics, w')
           | (topics, Some e) \<Rightarrow> (topics @ singleton_topics batch_idx bsize batch_points, w')))"

fun identify_batches ::
  "env \<Rightarrow> nat \<Rightarrow> (nat \<times> string KnowledgePoint list) list \<Rightarrow> TopicCluster list \<Rightarrow> world
     \<Rightarrow> TopicCluster list \<times> world" where
  "identify_batches E bsize [] all_topics w = (all_topics, w)"
| "identify_batches E bsize ((batch_idx, batch_points) # batches) all_topics w =
     (case identify_batch E bsize batch_idx batch_points all_topics w of
        (all_topics', w') \<Rightarrow> identify_batches E bsize batches all_topics' w')"

text \<open>
  \<open>_identify_topics\<close> up to its last step; the call of \<open>_merge_similar_topics\<close> on the
  list built here is not modelled.
\<close>

definition identify_topics ::
  "env \<Rightarrow> nat \<Rightarrow> string KnowledgePoint list \<Rightarrow> world \<Rightarrow> (range_error + TopicCluster list) \<times> world" where
  "identify_topics E bsize all_points w =
     (case create_batches bsize all_points of
        Inl e \<Rightarrow> (Inl e, w)
      | Inr batches \<Rightarrow>
          (case identify_batches E bsize (enumerate 0 batches) [] w of
             (all_topics, w') \<Rightarrow> (Inr all_topics, w')))"

subsection \<open>Batches and the index translation\<close>

lemma batch_start_in_range:
  assumes "0 < bsize" "b < (n + bsize - 1) div bsize"
  shows "b * bsize < (n::nat)"
proof (rule ccontr)
  assume "\<not> b * bsize < n"
  then have "n \<le> b * bsize"
    by simp
  moreover have "(b + 1) * bsize = b * bsize + bsize"
    by simp
  ultimately have "n + bsize - 1 < (b + 1) * bsize"
    using assms(1) by arith
  then have "(n + bsize - 1) div bsize < b + 1"
    using assms(1) by (simp add: div_less_iff_less_mult)
  with assms(2) show False by simp
qed

lemma create_batches_nth:
  assumes "create_batches bsize all_points = Inr batches" "b < length batches"
  shows "batches ! b = take bsize (drop (b * bsize) all_points) \<and> b * bsize < length all_points"
proof -
  have bsize: "0 < bsize" and bs: "batches = map (\<lambda>i. take bsize (drop i all_points))
                                           (range_step (length all_points) bsize)"
    using assms(1) by (auto simp: create_batches_def split: if_splits)
  have b: "b < (length all_points + bsize - 1) div bsize"
    using assms(2) by (simp add: bs range_step_def)
  then have "range_step (length all_points) bsize ! b = b * bsize"
    by (simp add: range_step_def)
  with b bs batch_start_in_range [OF bsize b] show ?thesis
    by (simp add: range_step_def)
qed

lemma shift_indices_ints:
  "shift_indices offset batch_len (map JInt ks)
     = Inr (map JInt (map (\<lambda>k. k + offset) (filter (\<lambda>k. k < batch_len) ks)))"
  by (induction ks) simp_all

text \<open>
  The indices a topic ends up with, when the reply gives it the integer indices \<open>ks\<close>:
  in the first batch all of them, as they are; in a later batch those below the length of
  the batch, moved by \<open>batch_idx * bsize\<close>.
\<close>

definition kept_indices :: "nat \<Rightarrow> nat \<Rightarrow> nat \<Rightarrow> int list \<Rightarrow> int list" where
  "kept_indices batch_idx bsize batch_len ks =
     (if batch_idx = 0 then ks
      else map (\<lambda>k. k + int (batch_idx * bsize)) (filter (\<lambda>k. k < int batch_len) ks))"

lemma make_topic_point_indices:
  assumes "map_of kvs ''point_indices'' = Some (JArr (map JInt ks))"
  shows "\<exists>t. make_topic batch_idx bsize batch_len n (JObj kvs) = Inr t
             \<and> point_indices t = JArr (map JInt (kept_indices batch_idx bsize batch_len ks))"
  using assms
  by (simp add: make_topic_def adjust_point_indices_def kept_indices_def shift_indices_ints)

lemma topics_of_reply_point_indices:
  assumes "\<And>kvs. kvs \<in> set tds
             \<Longrightarrow> map_of kvs ''point_indices'' = Some (JArr (map JInt (ks_of kvs)))"
  shows "\<exists>new. topics_of_reply batch_idx bsize batch_len (map JObj tds) acc = (acc @ new, None)
               \<and> map point_indices new
                   = map (\<lambda>kvs. JArr (map JInt (kept_indices batch_idx bsize batch_len (ks_of kvs)))) tds"
  using assms
proof (induction tds arbitrary: acc)
  case Nil
  show ?case by simp
next
  case (Cons kvs tds)
  from Cons.prems have "map_of kvs ''point_indices'' = Some (JArr (map JInt (ks_of kvs)))"
    by simp
  from make_topic_point_indices [OF this, of batch_idx bsize batch_len "length acc"]
  obtain t where t: "make_topic batch_idx bsize batch_len (length acc) (JObj kvs) = Inr t"
    "point_indices t = JArr (map JInt (kept_indices batch_idx bsize batch_len (ks_of kvs)))"
    by blast
  from Cons.IH [of "acc @ [t]"] Cons.prems
  obtain new where new:
    "topics_of_reply batch_idx bsize batch_len (map JObj tds) (acc @ [t]) = ((acc @ [t]) @ new, None)"
    "map point_indices new
       = map (\<lambda>kvs. JArr (map JInt (kept_indices batch_idx bsize batch_len (ks_of kvs)))) tds"
    by auto
  have "topics_of_reply batch_idx bsize batch_len (map JObj (kvs # tds)) acc = (acc @ (t # new), None)"
    using t(1) new(1) by simp
  moreover have "map point_indices (t # new)
       = map (\<lambda>kvs. JArr (map JInt (kept_indices batch_idx bsize batch_len (ks_of kvs)))) (kvs # tds)"
    using t(2) new(2) by simp
  ultimately show ?case by blast
qed

lemma identify_batch_point_indices:
  assumes "llm E (llm_calls w) (TopicsPrompt (map (\<lambda>p. (title p, take 150 (content p))) batch_points))
             = Inr reply"
    and "py_get (parse_json_response (json_loads E) reply) ''topics'' (JArr []) = Inr (JArr (map JObj tds))"
    and "\<And>kvs. kvs \<in> set tds
             \<Longrightarrow> map_of kvs ''point_indices'' = Some (JArr (map JInt (ks_of kvs)))"
  shows "\<exists>new. identify_batch E bsize batch_idx batch_points acc w
                 = (acc @ new, w\<lparr>llm_calls := Suc (llm_calls w)\<rparr>)
               \<and> map point_indices new
                   = map (\<lambda>kvs. JArr (map JInt
                            (kept_indices batch_idx bsize (length batch_points) (ks_of kvs)))) tds"
proof -
  from topics_of_reply_point_indices [of tds ks_of batch_idx bsize "length batch_points" acc] assms(3)
  obtain new where new:
    "topics_of_reply batch_idx bsize (length batch_points) (map JObj tds) acc = (acc @ new, None)"
    "map point_indices new
       = map (\<lambda>kvs. JArr (map JInt (kept_indices batch_idx bsize (length batch_points) (ks_of kvs)))) tds"
    by blast
  have "identify_batch E bsize batch_idx batch_points acc w
          = (acc @ new, w\<lparr>llm_calls := Suc (llm_calls w)\<rparr>)"
    using assms(1,2) new(1) by (simp add: identify_batch_def generate_def)
  with new(2) show ?thesis by blast
qed

lemma identify_batches_point_indices:
  assumes "\<And>j. j < length bs
             \<Longrightarrow> llm E (llm_calls w + j)
                   (TopicsPrompt (map (\<lambda>p. (title p, take 150 (content p))) (bs ! j)))
                   = Inr (reply (n + j))"
    and "\<And>j. j < length bs
             \<Longrightarrow> py_get (parse_json_response (json_loads E) (reply (n + j))) ''topics'' (JArr [])
                   = Inr (JArr (map JObj (tds (n + j))))"
    and "\<And>j kvs. j < length bs \<Longrightarrow> kvs \<in> set (tds (n + j))
             \<Longrightarrow> map_of kvs ''point_indices'' = Some (JArr (map JInt (ks_of kvs)))"
  shows "\<exists>new w'. identify_batches E bsize (enumerate n bs) acc w = (acc @ new, w')
               \<and> map point_indices new
                   = concat (map (\<lambda>j. map (\<lambda>kvs. JArr (map JInt
                                       (kept_indices (n + j) bsize (length (bs ! j)) (ks_of kvs))))
                                     (tds (n + j)))
                              [0..<length bs])"
  using assms
proof (induction bs arbitrary: n acc w)
  case Nil
  show ?case by simp
next
  case (Cons x xs)
  have first: "llm E (llm_calls w) (TopicsPrompt (map (\<lambda>p. (title p, take 150 (content p))) x))
                 = Inr (reply n)"
    "py_get (parse_json_response (json_loads E) (reply n)) ''topics'' (JArr [])
       = Inr (JArr (map JObj (tds n)))"
    "\<And>kvs. kvs \<in> set (tds n)
       \<Longrightarrow> map_of kvs ''point_indices'' = Some (JArr (map JInt (ks_of kvs)))"
    using Cons.prems(1) [of 0] Cons.prems(2) [of 0] Cons.prems(3) [of 0] by simp_all
  from identify_batch_point_indices [OF first(1,2), of ks_of bsize n acc] first(3)
  obtain new0 where new0:
    "identify_batch E bsize n x acc w = (acc @ new0, w\<lparr>llm_calls := Suc (llm_calls w)\<rparr>)"
    "map point_indices new0
       = map (\<lambda>kvs. JArr (map JInt (kept_indices n bsize (length x) (ks_of kvs)))) (tds n)"
    by blast
  define w1 where "w1 = w\<lparr>llm_calls := Suc (llm_calls w)\<rparr>"
  have rest: "\<And>j. j < length xs
               \<Longrightarrow> llm E (llm_calls w1 + j)
                     (TopicsPrompt (map (\<lambda>p. (title p, take 150 (content p))) (xs ! j)))
                     = Inr (reply (Suc n + j))"
    "\<And>j. j < length xs
       \<Longrightarrow> py_get (parse_json_response (json_loads E) (reply (Suc n + j))) ''topics'' (JArr [])
             = Inr (JArr (map JObj (tds (Suc n + j))))"
    "\<And>j kvs. j < length xs \<Longrightarrow> kvs \<in> set (tds (Suc n + j))
       \<Longrightarrow> map_of kvs ''point_indices'' = Some (JArr (map JInt (ks_of kvs)))"
    using Cons.prems(1) [of "Suc j" for j] Cons.prems(2) [of "Suc j" for j]
      Cons.prems(3) [of "Suc j" for j]
    by (simp_all add: w1_def)
  have "\<exists>new w'. identify_batches E bsize (enumerate (Suc n) xs) (acc @ new0) w1
                    = ((acc @ new0) @ new, w')
                  \<and> map point_indices new
                      = concat (map (\<lambda>j. map (\<lambda>kvs. JArr (map JInt
                                          (kept_indices (Suc n + j) bsize (length (xs ! j)) (ks_of kvs))))
                                        (tds (Suc n + j)))
                                 [0..<length xs])"
    apply (rule Cons.IH)
      apply (rule rest(1), assumption)
     apply (rule rest(2), assumption)
    apply (rule rest(3), assumption, assumption)
    done
  then obtain new1 w' where new1:
    "identify_batches E bsize (enumerate (Suc n) xs) (acc @ new0) w1 = ((acc @ new0) @ new1, w')"
    "map point_indices new1
       = concat (map (\<lambda>j. map (\<lambda>kvs. JArr (map JInt
                           (kept_indices (Suc n + j) bsize (length (xs ! j)) (ks_of kvs))))
                         (tds (Suc n + j)))
                  [0..<length xs])"
    by blast
  have run: "identify_batches E bsize (enumerate n (x # xs)) acc w = (acc @ (new0 @ new1), w')"
    using new0(1) new1(1) by (simp add: w1_def)
  have idx: "map point_indices (new0 @ new1)
       = concat (map (\<lambda>j. map (\<lambda>kvs. JArr (map JInt
                           (kept_indices (n + j) bsize (length ((x # xs) ! j)) (ks_of kvs))))
                         (tds (n + j)))
                  [0..<length (x # xs)])"
    using new0(2) new1(2) by (simp add: upt_Suc_shift comp_def del: upt_Suc)
  from run idx show ?case by blast
qed

lemma kept_indices_below:
  assumes "create_batches bsize all_points = Inr batches" "0 < b" "b < length batches"
    and "k \<in> set (kept_indices b bsize (length (batches ! b)) ks)"
  shows "k < int (length all_points)"
proof -
  from create_batches_nth [OF assms(1,3)]
  have "batches ! b = take bsize (drop (b * bsize) all_points)" "b * bsize < length all_points"
    by simp_all
  then have "b * bsize + length (batches ! b) \<le> length all_points"
    by simp
  then have le: "int (b * bsize) + int (length (batches ! b)) \<le> int (length all_points)"
    by (simp only: of_nat_add [symmetric] of_nat_le_iff)
  from assms(2,4) obtain k' where "k = k' + int (b * bsize)" "k' < int (length (batches ! b))"
    by (auto simp: kept_indices_def)
  with le show ?thesis by arith
qed

text \<open>
  Claim C4: what \<open>_identify_topics\<close> does with the indices of the replies. The fragment
  list is split into batches of the given size; the service answers the call for batch
  \<open>b\<close> with a text that decodes to a dictionary whose \<open>topics\<close> are dictionaries with
  integer \<open>point_indices\<close>. Then the topics come out in the order of the batches and of
  the replies, and each holds the indices \<open>kept_indices\<close> names: in a batch after the
  first a local index \<open>k\<close> is kept exactly when it is below the length of the batch and is
  translated to \<open>b * bsize + k\<close>, which is below the number of fragments; in the first
  batch every index of the reply is kept, whatever its value.
\<close>

theorem identify_topics_point_indices:
  assumes "create_batches bsize all_points = Inr batches"
    and "\<And>b. b < length batches
           \<Longrightarrow> llm E (llm_calls w + b)
                 (TopicsPrompt (map (\<lambda>p. (title p, take 150 (content p))) (batches ! b)))
                 = Inr (reply b)"
    and "\<And>b. b < length batches
           \<Longrightarrow> py_get (parse_json_response (json_loads E) (reply b)) ''topics'' (JArr [])
                 = Inr (JArr (map JObj (tds b)))"
    and "\<And>b kvs. b < length batches \<Longrightarrow> kvs \<in> set (tds b)
           \<Longrightarrow> map_of kvs ''point_indices'' = Some (JArr (map JInt (ks_of kvs)))"
  shows "map_sum id (map point_indices) (fst (identify_topics E bsize all_points w))
           = Inr (concat (map (\<lambda>b. map (\<lambda>kvs. JArr (map JInt
                                     (kept_indices b bsize (length (batches ! b)) (ks_of kvs))))
                                   (tds b))
                            [0..<length batches]))
         \<and> (\<forall>b kvs k. 0 < b \<and> b < length batches
                \<and> k \<in> set (kept_indices b bsize (length (batches ! b)) (ks_of kvs))
              \<longrightarrow> k < int (length all_points))
         \<and> kept_indices 0 bsize (length (batches ! 0)) ks = ks"
proof -
  from identify_batches_point_indices [of batches E w reply 0 tds ks_of bsize "[]"] assms(2,3,4)
  obtain new w' where new:
    "identify_batches E bsize (enumerate 0 batches) [] w = ([] @ new, w')"
    "map point_indices new
       = concat (map (\<lambda>j. map (\<lambda>kvs. JArr (map JInt
                           (kept_indices (0 + j) bsize (length (batches ! j)) (ks_of kvs))))
                         (tds (0 + j)))
                  [0..<length batches])"
    by auto
  have "map_sum id (map point_indices) (fst (identify_topics E bsize all_points w))
          = Inr (map point_indices new)"
    using assms(1) new(1) by (simp add: identify_topics_def)
  with new(2) kept_indices_below [OF assms(1)] show ?thesis
    by (auto simp: kept_indices_def)
qed

subsection \<open>A run over 120 fragments\<close>

text \<open>
  A service that answers every batch with one topic holding the local indices 5, 25, 55
  and 500, decoded by the example decoder, and a course of 120 equal fragments: three
  batches, of 50, 50 and 20 fragments.
\<close>

definition quoted :: "string \<Rightarrow> string" where
  "quoted s = CHR 0x22 # s @ [CHR 0x22]"

definition topics_reply :: string where
  "topics_reply =
     ''{'' @ quoted ''topics'' @ '': [{'' @ quoted ''point_indices'' @ '': [5, 25, 55, 500]}]}''"

definition topics_env :: env where
  "topics_env =
     \<lparr>llm = (\<lambda>n pr. Inr topics_reply),
      read_text = (\<lambda>p. Inl (ReadError p)),
      json_loads = json_decode,
      find_markers = (\<lambda>s. [])\<rparr>"

definition fragment :: "string KnowledgePoint" where
  "fragment =
     \<lparr>title = ''Limits'', content = ''A limit is a value.'', video_markers = [],
      source_file = ''a.srt'', importance = 3\<rparr>"

lemma batches_of_120:
  "create_batches 50 (replicate 120 fragment)
     = Inr [replicate 50 fragment, replicate 50 fragment, replicate 20 fragment]"
  by code_simp

lemma topics_reply_decoded:
  "parse_json_response json_decode topics_reply
     = JObj [(''topics'', JArr [JObj [(''point_indices'', JArr [JInt 5, JInt 25, JInt 55, JInt 500])]])]"
  by code_simp

text \<open>
  The run. The topic of the first batch keeps all four indices: 500, which is not below
  the number of fragments, and 55, which is not a place of the 50 fragments the service
  was shown but the place of a fragment of the second batch. The topic of the second
  batch holds 55 and 75, the topic of the third holds 105; there the indices that are not
  below the length of the batch are gone. (With at most five topics
  \<open>_merge_similar_topics\<close> returns the list it is given.)
\<close>

theorem identify_topics_120_fragments:
  "map_sum id (map point_indices)
     (fst (identify_topics topics_env 50 (replicate 120 fragment) fresh_world))
     = Inr [JArr [JInt 5, JInt 25, JInt 55, JInt 500], JArr [JInt 55, JInt 75], JArr [JInt 105]]"
proof -
  have u: "[0..<3] = [0, 1, 2::nat]"
    by (simp add: upt_rec)
  have l: "[replicate 50 fragment, replicate 50 fragment, replicate 20 fragment] ! b
             = replicate (if b = 2 then 20 else 50) fragment" if "b < 3" for b
    using that by (auto simp: nth_Cons' numeral_2_eq_2)
  show ?thesis
    using identify_topics_point_indices
            [OF batches_of_120,
             where E = topics_env and w = fresh_world and reply = "\<lambda>b. topics_reply"
               and tds = "\<lambda>b. [[(''point_indices'', JArr [JInt 5, JInt 25, JInt 55, JInt 500])]]"
               and ks_of = "\<lambda>kvs. [5, 25, 55, 500]" and ks = "[]"]
    by (simp add: topics_env_def topics_reply_decoded u kept_indices_def)
qed

section \<open>The response extractor: what it returns\<close>









end
